theory Spec2Isabelle
  imports Main "HOL-Library.AList"
begin

section \<open>The data of \<^verbatim>\<open>index.cts\<close>\<close>

text \<open>
  The type \<^verbatim>\<open>Service\<close> (lines 27-36). The optional fields \<^verbatim>\<open>txt?\<close> and
  \<^verbatim>\<open>ttl?\<close> are options, \<^verbatim>\<open>undefined\<close> being \<open>None\<close>. A
  \<^verbatim>\<open>Record<string, string>\<close> is an association list in the order of its keys,
  each key once.
\<close>

record Service =
  name :: string
  type :: string
  domain :: string
  hostName :: string
  addresses :: "string list"
  port :: int
  "txt" :: "(string \<times> string) list option"
  ttl :: "int option"

definition DEBOUNCE_TIMEOUT :: nat where
  "DEBOUNCE_TIMEOUT = 100"

subsection \<open>Addresses\<close>

text \<open>
  \<^verbatim>\<open>addr.replace(/%[^%]+$/, '')\<close> (lines 79 and 92). The pattern has no \<^verbatim>\<open>g\<close>
  flag, so the leftmost match is replaced. A match starts at a \<^verbatim>\<open>%\<close>, takes one or
  more characters other than \<^verbatim>\<open>%\<close> and must end where the string ends; replacing it
  by the empty string leaves what stands before it. The scan goes from the left, one
  position at a time, as the regular expression engine does.
\<close>

fun strip_scope :: "string \<Rightarrow> string" where
  "strip_scope [] = []"
| "strip_scope (c # cs) =
     (if c = CHR ''%'' \<and> cs \<noteq> [] \<and> list_all (\<lambda>d. d \<noteq> CHR ''%'') cs then []
      else c # strip_scope cs)"

text \<open>
  \<^verbatim>\<open>new Set(xs)\<close> followed by \<^verbatim>\<open>Array.from\<close>: a set keeps its elements in the
  order of their first insertion. \<open>set_add acc xs\<close> inserts \<open>xs\<close> into the set
  whose elements are \<open>acc\<close>.
\<close>

fun set_add :: "'a list \<Rightarrow> 'a list \<Rightarrow> 'a list" where
  "set_add acc [] = acc"
| "set_add acc (x # xs) = set_add (if x \<in> set acc then acc else acc @ [x]) xs"

definition array_from_set :: "'a list \<Rightarrow> 'a list" where
  "array_from_set xs = set_add [] xs"

subsection \<open>Object spread\<close>

text \<open>
  An object lists its keys in this order: first the keys that are array indices, by
  their numbers, then the other keys in the order of their creation. An array index is
  the decimal numeral, without a leading zero, of a number up to 4294967294.
\<close>

definition digit_value :: "char \<Rightarrow> nat option" where
  "digit_value c = map_of (zip ''0123456789'' [0, 1, 2, 3, 4, 5, 6, 7, 8, 9]) c"

fun decimal :: "nat \<Rightarrow> string \<Rightarrow> nat option" where
  "decimal n [] = Some n"
| "decimal n (c # cs) =
     (case digit_value c of None \<Rightarrow> None | Some d \<Rightarrow> decimal (10 * n + d) cs)"

definition array_index :: "string \<Rightarrow> nat option" where
  "array_index k =
     (case k of
        [] \<Rightarrow> None
      | c # cs \<Rightarrow>
          if c = CHR ''0'' \<and> cs \<noteq> [] then None
          else case decimal 0 k of
                 None \<Rightarrow> None
               | Some n \<Rightarrow> if n \<le> 4294967294 then Some n else None)"

text \<open>A new key \<open>k\<close> is listed before the key \<open>k'\<close> of the object.\<close>

definition lists_before :: "string \<Rightarrow> string \<Rightarrow> bool" where
  "lists_before k k' =
     (case array_index k of
        None \<Rightarrow> False
      | Some i \<Rightarrow> (case array_index k' of None \<Rightarrow> True | Some j \<Rightarrow> i < j))"

fun add_property :: "string \<Rightarrow> string \<Rightarrow> (string \<times> string) list \<Rightarrow> (string \<times> string) list" where
  "add_property k v [] = [(k, v)]"
| "add_property k v ((k', v') # rest) =
     (if lists_before k k' then (k, v) # (k', v') # rest
      else (k', v') # add_property k v rest)"

text \<open>
  An assignment to a property: a key already there keeps its place and takes the new
  value, a new key goes to its place in the order of the keys.
\<close>

definition set_property :: "string \<Rightarrow> string \<Rightarrow> (string \<times> string) list \<Rightarrow> (string \<times> string) list" where
  "set_property k v obj =
     (case map_of obj k of
        Some old \<Rightarrow> AList.update k v obj
      | None \<Rightarrow> add_property k v obj)"

text \<open>
  \<^verbatim>\<open>{ ...a, ...b }\<close> makes a new object and assigns to it the properties of \<open>a\<close>,
  then those of \<open>b\<close>, each in the order of its keys. Spreading \<^verbatim>\<open>undefined\<close>
  assigns nothing.
\<close>

fun assign_all :: "(string \<times> string) list \<Rightarrow> (string \<times> string) list \<Rightarrow> (string \<times> string) list" where
  "assign_all target [] = target"
| "assign_all target ((k, v) # rest) = assign_all (set_property k v target) rest"

definition spread :: "(string \<times> string) list option \<Rightarrow> (string \<times> string) list \<Rightarrow> (string \<times> string) list" where
  "spread a b = assign_all (assign_all [] (case a of None \<Rightarrow> [] | Some kvs \<Rightarrow> kvs)) b"

section \<open>The browse session\<close>

text \<open>
  \<^verbatim>\<open>key\<close> of lines 71 and 113: the template string
  \<^verbatim>\<open>`${name}|${type}|${domain}`\<close>.
\<close>

definition service_key :: "Service \<Rightarrow> string" where
  "service_key s = name s @ ''|'' @ type s @ ''|'' @ domain s"

text \<open>
  The raw events the backend hands to the callback of \<^verbatim>\<open>addon.browseServices\<close>:
  the three event names of the \<^verbatim>\<open>switch\<close> with their data, and any other event
  name, for which the \<^verbatim>\<open>switch\<close> has no case.
\<close>

datatype raw_event =
  RawFound Service
| RawLost Service
| RawError string
| RawOther string

text \<open>What the session emits to its listeners.\<close>

datatype notification =
  ServiceFound Service
| ServiceLost Service
| ErrorEvent string

text \<open>
  A timer of the runtime, as \<^verbatim>\<open>setTimeout\<close> creates it: its identity, the time at
  which it is due, and the \<^verbatim>\<open>key\<close> its callback (lines 101-107) has captured. What
  \<^verbatim>\<open>setTimeout\<close> returns is truthy, so \<^verbatim>\<open>if (existingTimeout)\<close> and
  \<^verbatim>\<open>if (timeout)\<close> ask whether \<^verbatim>\<open>_pendingEmit\<close> has an entry for the key.
\<close>

record Timeout =
  timer_id :: nat
  deadline :: nat
  timer_key :: string

text \<open>
  The fields of \<^verbatim>\<open>DnsSdBrowse\<close> (lines 58-61), together with what the session
  shares with its environment: the runtime's active timers in the order of their
  creation, the next timer identity, the runtime's clock, and the handles passed to
  \<^verbatim>\<open>addon.stopBrowse\<close> so far. \<^verbatim>\<open>_pendingEmit\<close> is an association list
  because \<^verbatim>\<open>stop\<close> iterates over its values.
\<close>

record DnsSdBrowse =
  handle :: nat
  stopped :: bool
  services :: "string \<rightharpoonup> Service"
  pendingEmit :: "(string \<times> nat) list"
  timers :: "Timeout list"
  next_timer :: nat
  clock :: nat
  stopBrowse_calls :: "nat list"

text \<open>
  The constructor, lines 63-65 and 59-61; \<open>h\<close> is the handle that
  \<^verbatim>\<open>addon.browseServices\<close> returns.
\<close>

definition new_DnsSdBrowse :: "nat \<Rightarrow> DnsSdBrowse" where
  "new_DnsSdBrowse h =
     \<lparr>handle = h, stopped = False, services = Map.empty, pendingEmit = [], timers = [],
      next_timer = 1, clock = 0, stopBrowse_calls = []\<rparr>"

text \<open>
  \<^verbatim>\<open>clearTimeout\<close> takes a timer out of the runtime's list; \<^verbatim>\<open>setTimeout\<close> adds
  one that is due after the delay and returns its identity.
\<close>

definition clearTimeout :: "nat \<Rightarrow> DnsSdBrowse \<Rightarrow> DnsSdBrowse" where
  "clearTimeout i st = st\<lparr>timers := filter (\<lambda>t. timer_id t \<noteq> i) (timers st)\<rparr>"

definition setTimeout :: "string \<Rightarrow> nat \<Rightarrow> DnsSdBrowse \<Rightarrow> nat \<times> DnsSdBrowse" where
  "setTimeout key delay st =
     (next_timer st,
      st\<lparr>timers := timers st @
            [\<lparr>timer_id = next_timer st, deadline = clock st + delay, timer_key = key\<rparr>],
         next_timer := Suc (next_timer st)\<rparr>)"

text \<open>
  Lines 76-88: the entry is there, and the incoming record is merged into it.
  \<^verbatim>\<open>if (incoming.txt)\<close> holds of every object, an empty one too, and not of
  \<^verbatim>\<open>undefined\<close>; \<^verbatim>\<open>if (incoming.ttl)\<close> holds of every number but 0, and not
  of \<^verbatim>\<open>undefined\<close>.
\<close>

definition merge_service :: "Service \<Rightarrow> Service \<Rightarrow> Service" where
  "merge_service service incoming =
     service\<lparr>addresses := map strip_scope (array_from_set (addresses service @ addresses incoming)),
             hostName := hostName incoming,
             port := port incoming,
             txt := (case txt incoming of
                       None \<Rightarrow> txt service
                     | Some kvs \<Rightarrow> Some (spread (txt service) kvs)),
             ttl := (case ttl incoming of
                       None \<Rightarrow> ttl service
                     | Some n \<Rightarrow> if n = 0 then ttl service else Some n)\<rparr>"

text \<open>Lines 90-92: there is no entry, and a copy of the incoming record becomes it.\<close>

definition create_service :: "Service \<Rightarrow> Service" where
  "create_service incoming = incoming\<lparr>addresses := map strip_scope (addresses incoming)\<rparr>"

text \<open>Lines 96-108: the debounce timer of a key is replaced by a new one.\<close>

definition debounce_emit :: "string \<Rightarrow> DnsSdBrowse \<Rightarrow> DnsSdBrowse" where
  "debounce_emit key st =
     (let st1 = (case map_of (pendingEmit st) key of
                   Some existingTimeout \<Rightarrow> clearTimeout existingTimeout st
                 | None \<Rightarrow> st);
          (timeout, st2) = setTimeout key DEBOUNCE_TIMEOUT st1
      in st2\<lparr>pendingEmit := AList.update key timeout (pendingEmit st2)\<rparr>)"

text \<open>The callback of the timer, lines 102-106.\<close>

definition timeout_callback :: "string \<Rightarrow> DnsSdBrowse \<Rightarrow> DnsSdBrowse \<times> notification list" where
  "timeout_callback key st =
     (let st1 = st\<lparr>pendingEmit := AList.delete key (pendingEmit st)\<rparr>
      in (st1,
          case services st1 key of
            Some svc \<Rightarrow> if \<not> stopped st1 \<and> addresses svc \<noteq> [] then [ServiceFound svc] else []
          | None \<Rightarrow> []))"

text \<open>The callback given to \<^verbatim>\<open>addon.browseServices\<close>, lines 65-131.\<close>

definition browse_callback :: "raw_event \<Rightarrow> DnsSdBrowse \<Rightarrow> DnsSdBrowse \<times> notification list" where
  "browse_callback ev st =
     (if stopped st then (st, [])
      else case ev of
        RawFound incoming \<Rightarrow>
          (let key = service_key incoming;
               service = (case services st key of
                            Some service \<Rightarrow> merge_service service incoming
                          | None \<Rightarrow> create_service incoming)
           in (debounce_emit key (st\<lparr>services := (services st)(key \<mapsto> service)\<rparr>), []))
      | RawLost lost \<Rightarrow>
          (let key = service_key lost in
           case services st key of
             Some service \<Rightarrow>
               (let st1 = st\<lparr>services := (services st)(key := None)\<rparr>;
                    st2 = (case map_of (pendingEmit st1) key of
                             Some timeout \<Rightarrow>
                               (clearTimeout timeout st1)
                                 \<lparr>pendingEmit := AList.delete key (pendingEmit st1)\<rparr>
                           | None \<Rightarrow> st1)
                in (st2, [ServiceLost service]))
           | None \<Rightarrow> (st, []))
      | RawError msg \<Rightarrow> (st, [ErrorEvent msg])
      | RawOther other \<Rightarrow> (st, []))"

text \<open>\<^verbatim>\<open>stop\<close>, lines 134-144.\<close>

definition stop :: "DnsSdBrowse \<Rightarrow> DnsSdBrowse" where
  "stop st =
     (if \<not> stopped st then
        (let st1 = st\<lparr>stopped := True\<rparr>;
             st2 = fold clearTimeout (map snd (pendingEmit st1)) st1;
             st3 = st2\<lparr>pendingEmit := []\<rparr>
         in st3\<lparr>stopBrowse_calls := stopBrowse_calls st3 @ [handle st3]\<rparr>)
      else st)"

subsection \<open>The runtime\<close>

text \<open>
  The runtime runs the callback of an active timer and forgets the timer. A timer that
  was cleared is not in the list and never runs.
\<close>

definition fire :: "nat \<Rightarrow> DnsSdBrowse \<Rightarrow> DnsSdBrowse \<times> notification list" where
  "fire i st =
     (case find (\<lambda>t. timer_id t = i) (timers st) of
        None \<Rightarrow> (st, [])
      | Some t \<Rightarrow> timeout_callback (timer_key t) (clearTimeout i st))"

text \<open>
  What can happen to a session, in any order: the backend delivers a raw event, an
  active timer runs, the caller calls \<^verbatim>\<open>stop\<close>, time passes.
\<close>

datatype action =
  Deliver raw_event
| Fire nat
| Stop
| Advance nat

fun step :: "action \<Rightarrow> DnsSdBrowse \<Rightarrow> DnsSdBrowse \<times> notification list" where
  "step (Deliver ev) st = browse_callback ev st"
| "step (Fire i) st = fire i st"
| "step Stop st = (stop st, [])"
| "step (Advance d) st = (st\<lparr>clock := clock st + d\<rparr>, [])"

fun exec :: "action list \<Rightarrow> DnsSdBrowse \<Rightarrow> DnsSdBrowse \<times> notification list" where
  "exec [] st = (st, [])"
| "exec (a # as) st =
     (let (st1, out1) = step a st; (st2, out2) = exec as st1 in (st2, out1 @ out2))"

subsection \<open>Timed runs\<close>

text \<open>
  The runtime runs the timers that are due in the order of their deadlines, and timers
  with the same deadline in the order of their creation.
\<close>

fun earliest :: "Timeout list \<Rightarrow> Timeout option" where
  "earliest [] = None"
| "earliest (t # ts) =
     (case earliest ts of
        None \<Rightarrow> Some t
      | Some m \<Rightarrow> if deadline m < deadline t then Some m else Some t)"

definition next_due :: "nat \<Rightarrow> Timeout list \<Rightarrow> Timeout option" where
  "next_due t ts = earliest (filter (\<lambda>x. deadline x \<le> t) ts)"

text \<open>
  \<open>run_timers t st\<close> lets time pass until \<open>t\<close>: every timer due by then runs, at
  its deadline, and each notification is paired with the time of its emission.
\<close>

function run_timers :: "nat \<Rightarrow> DnsSdBrowse \<Rightarrow> DnsSdBrowse \<times> (nat \<times> notification) list" where
  "run_timers t st =
     (case next_due t (timers st) of
        None \<Rightarrow> (st\<lparr>clock := max (clock st) t\<rparr>, [])
      | Some tm \<Rightarrow>
          (let now = max (clock st) (deadline tm);
               (st1, out1) = fire (timer_id tm) (st\<lparr>clock := now\<rparr>);
               (st2, out2) = run_timers t st1
           in (st2, map (Pair now) out1 @ out2)))"
  by pat_completeness auto
termination
proof (relation "measure (\<lambda>(t, st). length (timers st))", goal_cases)
  case 1
  show ?case by simp
next
  case (2 t st tm now p st1 out1)
  have mem: "earliest ts = Some m \<Longrightarrow> m \<in> set ts" for ts m
    by (induction ts arbitrary: m) (auto split: option.splits if_splits)
  from 2(1) have "tm \<in> set (filter (\<lambda>x. deadline x \<le> t) (timers st))"
    unfolding next_due_def by (rule mem)
  then have tm: "tm \<in> set (timers st)" by simp
  then obtain u where u: "find (\<lambda>x. timer_id x = timer_id tm) (timers st) = Some u"
    by (cases "find (\<lambda>x. timer_id x = timer_id tm) (timers st)") (auto simp: find_None_iff)
  have less: "length (filter (\<lambda>x. timer_id x \<noteq> timer_id tm) (timers st)) < length (timers st)"
    using tm by (intro length_filter_less[of tm]) auto
  from 2(3) 2(4) have "st1 = fst (fire (timer_id tm) (st\<lparr>clock := now\<rparr>))"
    by (metis fst_conv)
  then have "timers st1 = filter (\<lambda>x. timer_id x \<noteq> timer_id tm) (timers st)"
    by (simp add: fire_def u timeout_callback_def clearTimeout_def Let_def)
  with less show ?case by simp
qed

declare run_timers.simps [simp del]

text \<open>
  What reaches a session at a given time: a raw event of the backend, or a call of
  \<^verbatim>\<open>stop\<close>. \<open>run\<close> takes the inputs in their order; before each one, the timers
  due by its time have run. \<open>run_until\<close> then lets time pass until the horizon.
\<close>

datatype input =
  Event raw_event
| CallStop

fun run :: "(nat \<times> input) list \<Rightarrow> DnsSdBrowse \<Rightarrow> DnsSdBrowse \<times> (nat \<times> notification) list" where
  "run [] st = (st, [])"
| "run ((t, i) # rest) st =
     (let (st1, out1) = run_timers t st;
          (st2, out2) = (case i of
                           Event ev \<Rightarrow> browse_callback ev st1
                         | CallStop \<Rightarrow> (stop st1, []));
          (st3, out3) = run rest st2
      in (st3, out1 @ map (Pair (clock st1)) out2 @ out3))"

definition run_until :: "nat \<Rightarrow> (nat \<times> input) list \<Rightarrow> DnsSdBrowse \<Rightarrow> DnsSdBrowse \<times> (nat \<times> notification) list" where
  "run_until horizon inputs st =
     (let (st1, out1) = run inputs st;
          (st2, out2) = run_timers horizon st1
      in (st2, out1 @ out2))"

subsection \<open>Notions used in the statements\<close>

text \<open>Every active timer is the one \<^verbatim>\<open>_pendingEmit\<close> holds for the timer's key.\<close>

definition tracked :: "DnsSdBrowse \<Rightarrow> bool" where
  "tracked st =
     list_all (\<lambda>t. map_of (pendingEmit st) (timer_key t) = Some (timer_id t)) (timers st)"

text \<open>Every entry of the table is stored under its own key.\<close>

definition keyed :: "DnsSdBrowse \<Rightarrow> bool" where
  "keyed st = (\<forall>k s. services st k = Some s \<longrightarrow> service_key s = k)"

text \<open>
  What holds of a session at any time: every active timer is tracked, every entry is
  stored under its key, and the timers \<^verbatim>\<open>_pendingEmit\<close> holds are different ones
  that the runtime has created.
\<close>

definition well_formed :: "DnsSdBrowse \<Rightarrow> bool" where
  "well_formed st =
     (tracked st \<and> keyed st \<and> distinct (map snd (pendingEmit st))
      \<and> list_all (\<lambda>i. i < next_timer st) (map snd (pendingEmit st)))"

text \<open>
  The table entry after a sequence of \<^verbatim>\<open>serviceFound\<close> events of one key: each is
  merged into the entry (lines 74-94).
\<close>

fun aggregate :: "Service option \<Rightarrow> Service list \<Rightarrow> Service option" where
  "aggregate cur [] = cur"
| "aggregate cur (f # fs) =
     aggregate (Some (case cur of
                        Some service \<Rightarrow> merge_service service f
                      | None \<Rightarrow> create_service f)) fs"




text \<open>
  The \<^verbatim>\<open>serviceFound\<close> notifications of a timed run that carry a record of the
  given key.
\<close>

definition found_for :: "string \<Rightarrow> (nat \<times> notification) list \<Rightarrow> (nat \<times> notification) list" where
  "found_for key out =
     filter (\<lambda>(t, n). case n of ServiceFound s \<Rightarrow> service_key s = key | _ \<Rightarrow> False) out"

text \<open>The \<^verbatim>\<open>serviceLost\<close> notifications of a timed run.\<close>

definition lost_of :: "(nat \<times> notification) list \<Rightarrow> (nat \<times> notification) list" where
  "lost_of out = filter (\<lambda>(t, n). case n of ServiceLost s \<Rightarrow> True | _ \<Rightarrow> False) out"

subsection \<open>Notions used in the proofs\<close>

text \<open>A stopped session has no active timer and an empty \<^verbatim>\<open>_pendingEmit\<close>.\<close>

definition quiet :: "DnsSdBrowse \<Rightarrow> bool" where
  "quiet st = (if stopped st then timers st = [] \<and> pendingEmit st = [] else True)"

text \<open>
  The backend's stop function was called once, with the handle, if the session is
  stopped, and never otherwise.
\<close>

definition released_once :: "DnsSdBrowse \<Rightarrow> bool" where
  "released_once st = (stopBrowse_calls st = (if stopped st then [handle st] else []))"

text \<open>The active timers of the given key.\<close>

definition timers_of :: "string \<Rightarrow> DnsSdBrowse \<Rightarrow> Timeout list" where
  "timers_of key st = filter (\<lambda>x. timer_key x = key) (timers st)"



subsection \<open>Example services\<close>

text \<open>A service as a backend reports it, with the given addresses.\<close>

definition example_service :: "string list \<Rightarrow> Service" where
  "example_service as =
     \<lparr>name = ''printer'', type = ''_http._tcp'', domain = ''local.'', hostName = ''p.local.'',
      addresses = as, port = 80, txt = None, ttl = None\<rparr>"


text \<open>Two services with different names and types whose keys are the same string.\<close>

definition pipe_name_service :: Service where
  "pipe_name_service =
     \<lparr>name = ''a|b'', type = ''c'', domain = ''local.'', hostName = ''one.local.'',
      addresses = [''192.168.1.5''], port = 80, txt = None, ttl = None\<rparr>"

definition pipe_type_service :: Service where
  "pipe_type_service =
     \<lparr>name = ''a'', type = ''b|c'', domain = ''local.'', hostName = ''two.local.'',
      addresses = [''192.168.1.6''], port = 81, txt = None, ttl = None\<rparr>"

section \<open>The advertise session\<close>

text \<open>
  The fields of \<^verbatim>\<open>DnsSdAdvertisement\<close> (lines 156-157) and the handles passed to
  \<^verbatim>\<open>addon.stopAdvertise\<close> so far.
\<close>

record DnsSdAdvertisement =
  adv_handle :: nat
  adv_stopped :: bool
  stopAdvertise_calls :: "nat list"

datatype adv_event =
  RawRegistered string
| RawAdvError string
| RawAdvOther string

datatype adv_notification =
  Registered string
| AdvErrorEvent string

text \<open>
  The constructor, lines 159-161 and 157; \<open>h\<close> is the handle that
  \<^verbatim>\<open>addon.advertiseService\<close> returns.
\<close>

definition new_DnsSdAdvertisement :: "nat \<Rightarrow> DnsSdAdvertisement" where
  "new_DnsSdAdvertisement h = \<lparr>adv_handle = h, adv_stopped = False, stopAdvertise_calls = []\<rparr>"

text \<open>The callback given to \<^verbatim>\<open>addon.advertiseService\<close>, lines 166-177.\<close>

definition advertise_callback :: "adv_event \<Rightarrow> DnsSdAdvertisement \<Rightarrow> DnsSdAdvertisement \<times> adv_notification list" where
  "advertise_callback ev st =
     (if adv_stopped st then (st, [])
      else case ev of
        RawRegistered registered_name \<Rightarrow> (st, [Registered registered_name])
      | RawAdvError msg \<Rightarrow> (st, [AdvErrorEvent msg])
      | RawAdvOther other \<Rightarrow> (st, []))"

text \<open>\<^verbatim>\<open>stop\<close>, lines 181-186.\<close>

definition adv_stop :: "DnsSdAdvertisement \<Rightarrow> DnsSdAdvertisement" where
  "adv_stop st =
     (if \<not> adv_stopped st then
        st\<lparr>adv_stopped := True, stopAdvertise_calls := stopAdvertise_calls st @ [adv_handle st]\<rparr>
      else st)"

datatype adv_action =
  AdvDeliver adv_event
| AdvStop

fun adv_step :: "adv_action \<Rightarrow> DnsSdAdvertisement \<Rightarrow> DnsSdAdvertisement \<times> adv_notification list" where
  "adv_step (AdvDeliver ev) st = advertise_callback ev st"
| "adv_step AdvStop st = (adv_stop st, [])"

fun adv_exec :: "adv_action list \<Rightarrow> DnsSdAdvertisement \<Rightarrow> DnsSdAdvertisement \<times> adv_notification list" where
  "adv_exec [] st = (st, [])"
| "adv_exec (a # as) st =
     (let (st1, out1) = adv_step a st; (st2, out2) = adv_exec as st1 in (st2, out1 @ out2))"

section \<open>Scope suffixes\<close>

lemma strip_scope_no_percent:
  "CHR ''%'' \<notin> set s \<Longrightarrow> strip_scope s = s"
  by (induction s) auto

lemma strip_scope_suffix:
  "CHR ''%'' \<notin> set b \<Longrightarrow> b \<noteq> [] \<Longrightarrow> strip_scope (a @ CHR ''%'' # b) = a"
  by (induction a) (auto simp: list_all_iff)

lemma strip_scope_trailing:
  "strip_scope (a @ [CHR ''%'']) = a @ [CHR ''%'']"
  by (induction a) (auto simp: list_all_iff)

lemma strip_scope_prefix_free:
  "count_list s (CHR ''%'') \<le> 1 \<Longrightarrow> strip_scope (strip_scope s) = strip_scope s"
proof (induction s)
  case Nil
  then show ?case by simp
next
  case (Cons c cs)
  show ?case
  proof (cases "c = CHR ''%''")
    case True
    with Cons.prems have "count_list cs (CHR ''%'') = 0" by simp
    then have free: "CHR ''%'' \<notin> set cs" by (simp add: count_list_0_iff)
    show ?thesis
    proof (cases "cs = []")
      case True
      with \<open>c = CHR ''%''\<close> show ?thesis by simp
    next
      case False
      with free \<open>c = CHR ''%''\<close> show ?thesis by (simp add: list_all_iff)
    qed
  next
    case False
    with Cons show ?thesis by simp
  qed
qed

text \<open>
  Claim C3, as the code has it. The normalizer removes the last \<^verbatim>\<open>%\<close> and what
  follows it when at least one character follows it; it leaves unchanged an address
  without \<^verbatim>\<open>%\<close> and an address whose last \<^verbatim>\<open>%\<close> is its last character;
  and normalizing twice equals normalizing once on every address with at most one
  \<^verbatim>\<open>%\<close>.
\<close>

theorem C3_strip_scope:
  "(CHR ''%'' \<notin> set b \<and> b \<noteq> [] \<longrightarrow> strip_scope (a @ CHR ''%'' # b) = a)
   \<and> (CHR ''%'' \<notin> set s \<longrightarrow> strip_scope s = s)
   \<and> strip_scope (a @ [CHR ''%'']) = a @ [CHR ''%'']
   \<and> (count_list s (CHR ''%'') \<le> 1 \<longrightarrow> strip_scope (strip_scope s) = strip_scope s)"
  using strip_scope_no_percent strip_scope_suffix strip_scope_trailing strip_scope_prefix_free
  by blast

theorem C3_strip_scope_witness:
  "strip_scope ''fe80::1%eth0'' = ''fe80::1''
   \<and> strip_scope ''192.168.1.5'' = ''192.168.1.5''
   \<and> strip_scope ''fe80::1%'' = ''fe80::1%''
   \<and> strip_scope (strip_scope ''fe80::1%eth0'') = strip_scope ''fe80::1%eth0''"
  using C3_strip_scope [of "''eth0''" "''fe80::1''" "''192.168.1.5''"]
    C3_strip_scope [of "''eth0''" "''fe80::1''" "''fe80::1%eth0''"]
  by simp

text \<open>
  The claim as written fails: an address with two \<^verbatim>\<open>%\<close> loses one suffix at each
  pass, and a \<^verbatim>\<open>%\<close> that ends the address is kept.
\<close>

theorem C3_strip_scope_counterexample:
  "strip_scope (strip_scope ''fe80::1%25%eth0'') \<noteq> strip_scope ''fe80::1%25%eth0''
   \<and> strip_scope ''fe80::1%'' \<noteq> ''fe80::1''"
  by simp

section \<open>Stopping, and the timers the session tracks\<close>

lemma fold_clearTimeout:
  "fold clearTimeout ids st = st\<lparr>timers := filter (\<lambda>t. timer_id t \<notin> set ids) (timers st)\<rparr>"
proof (induction ids arbitrary: st)
  case Nil
  then show ?case by simp
next
  case (Cons i ids)
  have "filter (\<lambda>t. timer_id t \<notin> set ids) (filter (\<lambda>t. timer_id t \<noteq> i) (timers st))
        = filter (\<lambda>t. timer_id t \<notin> set (i # ids)) (timers st)"
    by (auto intro: filter_cong)
  with Cons show ?case by (simp add: clearTimeout_def)
qed

lemma stop_unfold:
  "stop st =
     (if stopped st then st
      else st\<lparr>stopped := True,
              timers := filter (\<lambda>t. timer_id t \<notin> snd ` set (pendingEmit st)) (timers st),
              pendingEmit := [],
              stopBrowse_calls := stopBrowse_calls st @ [handle st]\<rparr>)"
  by (simp add: stop_def Let_def fold_clearTimeout)

lemma stopped_stop: "stopped (stop st)"
  by (simp add: stop_unfold)

lemma stop_stopped: "stopped st \<Longrightarrow> stop st = st"
  by (simp add: stop_unfold)

lemma tracked_stop_timers:
  assumes "tracked st"
  shows "timers (stop st) = filter (\<lambda>t. stopped st) (timers st)"
proof -
  have "\<And>t. t \<in> set (timers st) \<Longrightarrow> timer_id t \<in> snd ` set (pendingEmit st)"
  proof -
    fix t assume "t \<in> set (timers st)"
    with assms have "map_of (pendingEmit st) (timer_key t) = Some (timer_id t)"
      by (simp add: tracked_def list_all_iff)
    then have "(timer_key t, timer_id t) \<in> set (pendingEmit st)" by (rule map_of_SomeD)
    then show "timer_id t \<in> snd ` set (pendingEmit st)" by force
  qed
  then show ?thesis
    by (auto simp: stop_unfold intro: filter_cong)
qed

lemma browse_callback_stopped: "stopped st \<Longrightarrow> browse_callback ev st = (st, [])"
  by (simp add: browse_callback_def)

lemma stopped_timeout_callback: "stopped (fst (timeout_callback k st)) = stopped st"
  by (simp add: timeout_callback_def Let_def)

lemma timeout_callback_stopped: "stopped st \<Longrightarrow> snd (timeout_callback k st) = []"
  by (simp add: timeout_callback_def Let_def split: option.splits)

lemma stopped_clearTimeout: "stopped (clearTimeout i st) = stopped st"
  by (simp add: clearTimeout_def)

lemma fire_stopped: "stopped st \<Longrightarrow> snd (fire i st) = [] \<and> stopped (fst (fire i st))"
  by (simp add: fire_def timeout_callback_stopped stopped_timeout_callback stopped_clearTimeout split: option.splits)

lemma step_stopped: "stopped st \<Longrightarrow> snd (step a st) = [] \<and> stopped (fst (step a st))"
  by (cases a) (simp_all add: browse_callback_stopped fire_stopped stop_stopped)

lemma exec_stopped: "stopped st \<Longrightarrow> snd (exec as st) = [] \<and> stopped (fst (exec as st))"
proof (induction as arbitrary: st)
  case Nil
  then show ?case by simp
next
  case (Cons a as)
  from step_stopped[OF Cons.prems, of a] Cons.IH[of "fst (step a st)"]
  show ?case by (simp add: split_beta)
qed

text \<open>\<open>tracked\<close> holds of a new session and is kept by every action.\<close>

lemma tracked_debounce_emit:
  assumes "tracked st"
  shows "tracked (debounce_emit key st)"
proof -
  have *: "\<And>t. t \<in> set (timers st) \<Longrightarrow> map_of (pendingEmit st) (timer_key t) = Some (timer_id t)"
    using assms by (simp add: tracked_def list_all_iff)
  show ?thesis
    using * by (auto simp: tracked_def debounce_emit_def setTimeout_def clearTimeout_def Let_def
        list_all_iff update_conv' split: option.splits)
qed

lemma tracked_services_update: "tracked (st\<lparr>services := m\<rparr>) = tracked st"
  by (simp add: tracked_def)

lemma tracked_clock_update: "tracked (st\<lparr>clock := c\<rparr>) = tracked st"
  by (simp add: tracked_def)

lemma tracked_browse_callback:
  assumes "tracked st"
  shows "tracked (fst (browse_callback ev st))"
proof (cases "stopped st")
  case True
  with assms show ?thesis by (simp add: browse_callback_stopped)
next
  case False
  have *: "\<And>t. t \<in> set (timers st) \<Longrightarrow> map_of (pendingEmit st) (timer_key t) = Some (timer_id t)"
    using assms by (simp add: tracked_def list_all_iff)
  show ?thesis
  proof (cases ev)
    case (RawFound incoming)
    with False assms show ?thesis
      by (simp add: browse_callback_def Let_def tracked_debounce_emit tracked_services_update)
  next
    case (RawLost lost)
    with False * show ?thesis
      by (fastforce simp: browse_callback_def Let_def tracked_def clearTimeout_def list_all_iff delete_conv'
          split: option.splits)
  next
    case (RawError msg)
    with False assms show ?thesis by (simp add: browse_callback_def)
  next
    case (RawOther other)
    with False assms show ?thesis by (simp add: browse_callback_def)
  qed
qed

lemma tracked_fire:
  assumes "tracked st"
  shows "tracked (fst (fire i st))"
proof (cases "find (\<lambda>t. timer_id t = i) (timers st)")
  case None
  with assms show ?thesis by (simp add: fire_def)
next
  case (Some u)
  then have u: "u \<in> set (timers st)" "timer_id u = i"
    by (auto simp: find_Some_iff)
  have *: "\<And>t. t \<in> set (timers st) \<Longrightarrow> map_of (pendingEmit st) (timer_key t) = Some (timer_id t)"
    using assms by (simp add: tracked_def list_all_iff)
  have "map_of (pendingEmit st) (timer_key t) = Some (timer_id t) \<and> timer_key t \<noteq> timer_key u"
    if "t \<in> set (timers st)" "timer_id t \<noteq> i" for t
  proof
    show "map_of (pendingEmit st) (timer_key t) = Some (timer_id t)" using that(1) by (rule *)
    show "timer_key t \<noteq> timer_key u"
    proof
      assume "timer_key t = timer_key u"
      with *[OF u(1)] *[OF that(1)] have "timer_id t = timer_id u" by simp
      with u(2) that(2) show False by simp
    qed
  qed
  then show ?thesis
    by (simp add: fire_def Some timeout_callback_def Let_def clearTimeout_def tracked_def
        list_all_iff delete_conv')
qed

lemma tracked_stop: "tracked st \<Longrightarrow> tracked (stop st)"
  by (cases "stopped st") (simp_all add: stop_stopped tracked_def[of "stop st"] tracked_stop_timers)

lemma tracked_step: "tracked st \<Longrightarrow> tracked (fst (step a st))"
  by (cases a) (simp_all add: tracked_browse_callback tracked_fire tracked_stop tracked_clock_update)

lemma tracked_exec: "tracked st \<Longrightarrow> tracked (fst (exec as st))"
proof (induction as arbitrary: st)
  case Nil
  then show ?case by simp
next
  case (Cons a as)
  from Cons.IH[OF tracked_step[OF Cons.prems, of a]]
  show ?case by (simp add: split_beta)
qed

lemma tracked_new: "tracked (new_DnsSdBrowse h)"
  by (simp add: tracked_def new_DnsSdBrowse_def)

section \<open>Executions\<close>

lemmas session_defs =
  new_DnsSdBrowse_def browse_callback_def debounce_emit_def setTimeout_def clearTimeout_def
  timeout_callback_def fire_def stop_unfold service_key_def create_service_def merge_service_def
  array_from_set_def spread_def example_service_def DEBOUNCE_TIMEOUT_def Let_def

lemma stopped_browse_callback: "stopped (fst (browse_callback ev st)) = stopped st"
  by (cases ev)
     (auto simp: browse_callback_def debounce_emit_def setTimeout_def clearTimeout_def Let_def
           split: option.splits)

lemma stopped_fire: "stopped (fst (fire i st)) = stopped st"
  by (simp add: fire_def stopped_timeout_callback stopped_clearTimeout split: option.splits)

lemma stopped_step: "stopped (fst (step a st)) = (stopped st \<or> a = Stop)"
  by (cases a) (simp_all add: stopped_browse_callback stopped_fire stopped_stop)

lemma stopped_exec: "stopped (fst (exec as st)) = (stopped st \<or> Stop \<in> set as)"
proof (induction as arbitrary: st)
  case Nil
  then show ?case by simp
next
  case (Cons a as)
  from Cons.IH[of "fst (step a st)"] show ?case
    by (auto simp: split_beta stopped_step)
qed

lemma exec_append:
  "exec (as @ bs) st =
     (fst (exec bs (fst (exec as st))), snd (exec as st) @ snd (exec bs (fst (exec as st))))"
  by (induction as arbitrary: st) (simp_all add: split_beta)

lemma fire_no_timers: "timers st = [] \<Longrightarrow> fire i st = (st, [])"
  by (simp add: fire_def)

lemma quiet_step:
  assumes "tracked st" "quiet st"
  shows "quiet (fst (step a st))"
proof (cases "stopped st")
  case True
  with assms(2) have e: "timers st = []" "pendingEmit st = []" by (simp_all add: quiet_def)
  from True e show ?thesis
    by (cases a) (simp_all add: browse_callback_stopped fire_no_timers stop_stopped quiet_def)
next
  case False
  show ?thesis
  proof (cases "a = Stop")
    case True
    with False assms(1) show ?thesis
      by (simp add: quiet_def tracked_stop_timers stopped_stop) (simp add: stop_unfold)
  next
    case False
    with \<open>\<not> stopped st\<close> have "\<not> stopped (fst (step a st))" by (simp add: stopped_step)
    then show ?thesis by (simp add: quiet_def)
  qed
qed

lemma quiet_exec:
  "tracked st \<Longrightarrow> quiet st \<Longrightarrow> quiet (fst (exec as st))"
proof (induction as arbitrary: st)
  case Nil
  then show ?case by simp
next
  case (Cons a as)
  from Cons.IH[OF tracked_step[OF Cons.prems(1), of a] quiet_step[OF Cons.prems, of a]]
  show ?case by (simp add: split_beta)
qed

lemma quiet_new: "quiet (new_DnsSdBrowse h)"
  by (simp add: quiet_def new_DnsSdBrowse_def)

lemma stop_reachable_quiet:
  "timers (stop (fst (exec pre (new_DnsSdBrowse h)))) = []
   \<and> pendingEmit (stop (fst (exec pre (new_DnsSdBrowse h)))) = []"
proof -
  let ?st = "fst (exec pre (new_DnsSdBrowse h))"
  have t: "tracked ?st" by (rule tracked_exec[OF tracked_new])
  have q: "quiet ?st" by (rule quiet_exec[OF tracked_new quiet_new])
  have "quiet (fst (step Stop ?st))" by (rule quiet_step[OF t q])
  then show ?thesis by (simp add: quiet_def stopped_stop)
qed

section \<open>Timed runs are executions\<close>

lemma run_timers_exec:
  "\<exists>as. exec as st = (fst (run_timers t st), map snd (snd (run_timers t st)))"
proof (induction t st rule: run_timers.induct)
  case (1 t st)
  show ?case
  proof (cases "next_due t (timers st)")
    case None
    have "exec [Advance (max (clock st) t - clock st)] st = (st\<lparr>clock := max (clock st) t\<rparr>, [])"
      by (simp add: max_def)
    with None show ?thesis
      by (subst (1 2) run_timers.simps) (auto simp del: exec.simps intro: exI)
  next
    case (Some tm)
    define now where "now = max (clock st) (deadline tm)"
    define p where "p = fire (timer_id tm) (st\<lparr>clock := now\<rparr>)"
    from 1[OF Some now_def p_def, of "fst p" "snd p"]
    obtain as where as: "exec as (fst p) = (fst (run_timers t (fst p)), map snd (snd (run_timers t (fst p))))"
      by auto
    have adv: "st\<lparr>clock := clock st + (now - clock st)\<rparr> = st\<lparr>clock := now\<rparr>"
      by (simp add: now_def max_def)
    have "exec (Advance (now - clock st) # Fire (timer_id tm) # as) st
          = (fst (run_timers t (fst p)), snd p @ map snd (snd (run_timers t (fst p))))"
      using as by (simp add: adv p_def[symmetric] split_beta)
    moreover have "run_timers t st
          = (fst (run_timers t (fst p)), map (Pair now) (snd p) @ snd (run_timers t (fst p)))"
      by (subst run_timers.simps) (simp add: Some now_def[symmetric] p_def[symmetric] Let_def split_beta)
    ultimately show ?thesis
      by (auto simp del: exec.simps simp: comp_def intro: exI)
  qed
qed

lemma run_exec:
  "\<exists>as. exec as st = (fst (run inputs st), map snd (snd (run inputs st)))"
proof (induction inputs arbitrary: st)
  case Nil
  have "exec [] st = (st, [])" by simp
  then show ?case by (auto simp del: exec.simps intro: exI)
next
  case (Cons ti inputs)
  obtain t i where ti: "ti = (t, i)" by (cases ti)
  obtain as1 where as1: "exec as1 st = (fst (run_timers t st), map snd (snd (run_timers t st)))"
    using run_timers_exec by blast
  define st1 where "st1 = fst (run_timers t st)"
  define a where "a = (case i of Event ev \<Rightarrow> Deliver ev | CallStop \<Rightarrow> Stop)"
  have a: "step a st1 = (case i of Event ev \<Rightarrow> browse_callback ev st1 | CallStop \<Rightarrow> (stop st1, []))"
    by (simp add: a_def split: input.splits)
  define st2 where "st2 = fst (step a st1)"
  obtain as3 where as3: "exec as3 st2 = (fst (run inputs st2), map snd (snd (run inputs st2)))"
    using Cons.IH by blast
  have r: "run (ti # inputs) st
      = (fst (run inputs st2),
         snd (run_timers t st) @ map (Pair (clock st1)) (snd (step a st1)) @ snd (run inputs st2))"
    by (cases i) (simp_all add: ti st2_def st1_def a_def split_beta)
  have "exec (as1 @ a # as3) st
      = (fst (run inputs st2),
         map snd (snd (run_timers t st)) @ snd (step a st1) @ map snd (snd (run inputs st2)))"
    by (simp add: exec_append as1 split_beta st1_def[symmetric] st2_def[symmetric] as3)
  with r have "exec (as1 @ a # as3) st = (fst (run (ti # inputs) st), map snd (snd (run (ti # inputs) st)))"
    by (simp add: comp_def)
  then show ?case by blast
qed

lemma run_until_exec:
  "\<exists>as. exec as st = (fst (run_until horizon inputs st), map snd (snd (run_until horizon inputs st)))"
proof -
  obtain as1 where as1: "exec as1 st = (fst (run inputs st), map snd (snd (run inputs st)))"
    using run_exec by blast
  obtain as2 where as2: "exec as2 (fst (run inputs st))
      = (fst (run_timers horizon (fst (run inputs st))), map snd (snd (run_timers horizon (fst (run inputs st)))))"
    using run_timers_exec by blast
  have "exec (as1 @ as2) st = (fst (run_until horizon inputs st), map snd (snd (run_until horizon inputs st)))"
    by (simp add: exec_append as1 as2 run_until_def split_beta)
  then show ?thesis by blast
qed

lemma run_until_stopped:
  assumes "stopped st"
  shows "snd (run_until h inputs st) = []"
proof -
  obtain as where "exec as st = (fst (run_until h inputs st), map snd (snd (run_until h inputs st)))"
    using run_until_exec by blast
  then have "map snd (snd (run_until h inputs st)) = snd (exec as st)" by simp
  with exec_stopped[OF assms, of as] show ?thesis by simp
qed

text \<open>
  Claim C5. Whatever happened to a session before, \<^verbatim>\<open>stop\<close> leaves it stopped,
  with no active timer and an empty \<^verbatim>\<open>_pendingEmit\<close>; and whatever happens
  afterwards (raw events of any kind, timers, further calls of \<^verbatim>\<open>stop\<close>, time
  passing), in any order or in a timed run, nothing is emitted and the session stays
  stopped.
\<close>

theorem C5_stop_silences:
  "stopped (stop (fst (exec pre (new_DnsSdBrowse h))))
   \<and> timers (stop (fst (exec pre (new_DnsSdBrowse h)))) = []
   \<and> pendingEmit (stop (fst (exec pre (new_DnsSdBrowse h)))) = []
   \<and> snd (exec post (stop (fst (exec pre (new_DnsSdBrowse h))))) = []
   \<and> stopped (fst (exec post (stop (fst (exec pre (new_DnsSdBrowse h))))))
   \<and> snd (run_until horizon inputs (stop (fst (exec pre (new_DnsSdBrowse h))))) = []"
  using stop_reachable_quiet[of pre h]
    exec_stopped[OF stopped_stop, of post "fst (exec pre (new_DnsSdBrowse h))"]
    run_until_stopped[OF stopped_stop, of horizon inputs "fst (exec pre (new_DnsSdBrowse h))"]
  by (simp add: stopped_stop)

text \<open>A session with a pending debounce timer is stopped; what follows is silent.\<close>

theorem C5_stop_silences_witness:
  "snd (exec [Deliver (RawFound (example_service [''192.168.1.5''])), Fire 1, Deliver (RawError ''late''),
              Deliver (RawLost (example_service [])), Advance 100]
         (stop (fst (exec [Deliver (RawFound (example_service [''192.168.1.5'']))] (new_DnsSdBrowse 7))))) = []
   \<and> timers (stop (fst (exec [Deliver (RawFound (example_service [''192.168.1.5'']))] (new_DnsSdBrowse 7)))) = []
   \<and> timers (fst (exec [Deliver (RawFound (example_service [''192.168.1.5'']))] (new_DnsSdBrowse 7))) \<noteq> []"
proof -
  have "timers (fst (exec [Deliver (RawFound (example_service [''192.168.1.5'']))] (new_DnsSdBrowse 7))) \<noteq> []"
    by (simp add: new_DnsSdBrowse_def browse_callback_def debounce_emit_def setTimeout_def Let_def)
  with C5_stop_silences[of "[Deliver (RawFound (example_service [''192.168.1.5'']))]" 7
      "[Deliver (RawFound (example_service [''192.168.1.5''])), Fire 1, Deliver (RawError ''late''),
              Deliver (RawLost (example_service [])), Advance 100]"]
  show ?thesis by blast
qed

section \<open>Empty address lists\<close>

lemma timeout_callback_found:
  "ServiceFound s \<in> set (snd (timeout_callback k st)) \<Longrightarrow> addresses s \<noteq> []"
  by (auto simp: timeout_callback_def Let_def split: option.splits if_splits)

lemma browse_callback_no_found:
  "ServiceFound s \<notin> set (snd (browse_callback ev st))"
  by (cases ev) (auto simp: browse_callback_def Let_def split: option.splits)

lemma step_found:
  "ServiceFound s \<in> set (snd (step a st)) \<Longrightarrow> addresses s \<noteq> []"
  by (cases a)
     (auto simp: browse_callback_no_found fire_def split: option.splits dest: timeout_callback_found)

lemma exec_found:
  "ServiceFound s \<in> set (snd (exec as st)) \<Longrightarrow> addresses s \<noteq> []"
proof (induction as arbitrary: st)
  case Nil
  then show ?case by simp
next
  case (Cons a as)
  then show ?case by (auto simp: split_beta dest: step_found)
qed

lemma run_until_found:
  assumes "(t, ServiceFound s) \<in> set (snd (run_until horizon inputs st))"
  shows "addresses s \<noteq> []"
proof -
  obtain as where "exec as st = (fst (run_until horizon inputs st), map snd (snd (run_until horizon inputs st)))"
    using run_until_exec by blast
  then have "snd (exec as st) = map snd (snd (run_until horizon inputs st))" by simp
  moreover from assms have "ServiceFound s \<in> set (map snd (snd (run_until horizon inputs st)))"
    by force
  ultimately show ?thesis using exec_found by metis
qed

lemma timeout_callback_suppressed:
  "services st key = Some e \<Longrightarrow> addresses e = [] \<Longrightarrow>
     snd (timeout_callback key st) = [] \<and> services (fst (timeout_callback key st)) = services st"
  by (simp add: timeout_callback_def Let_def)

text \<open>
  Claim C2, as the code has it. No \<^verbatim>\<open>serviceFound\<close> notification carries a record
  with an empty \<^verbatim>\<open>addresses\<close> list, in any execution and in any timed run; when
  the timer of a key expires and the entry of the key has no address, nothing is emitted
  and the table is left as it is.
\<close>

theorem C2_found_never_empty:
  "(ServiceFound s \<in> set (snd (exec as st)) \<longrightarrow> addresses s \<noteq> [])
   \<and> ((t, ServiceFound s) \<in> set (snd (run_until horizon inputs st)) \<longrightarrow> addresses s \<noteq> [])
   \<and> (services st key = Some e \<and> addresses e = [] \<longrightarrow>
        snd (timeout_callback key st) = []
        \<and> services (fst (timeout_callback key st)) = services st)"
  using exec_found run_until_found timeout_callback_suppressed by blast

text \<open>One emission with an address, and one suppressed emission that keeps the entry.\<close>

theorem C2_found_never_empty_witness:
  "ServiceFound (example_service [''192.168.1.5''])
     \<in> set (snd (exec [Deliver (RawFound (example_service [''192.168.1.5''])), Fire 1] (new_DnsSdBrowse 7)))
   \<and> addresses (example_service [''192.168.1.5'']) \<noteq> []
   \<and> snd (exec [Deliver (RawFound (example_service [])), Fire 1] (new_DnsSdBrowse 7)) = []
   \<and> services (fst (exec [Deliver (RawFound (example_service [])), Fire 1] (new_DnsSdBrowse 7)))
        ''printer|_http._tcp|local.'' = Some (example_service [])"
proof -
  have m: "ServiceFound (example_service [''192.168.1.5''])
     \<in> set (snd (exec [Deliver (RawFound (example_service [''192.168.1.5''])), Fire 1] (new_DnsSdBrowse 7)))"
    by (simp add: session_defs)
  have e: "snd (exec [Deliver (RawFound (example_service [])), Fire 1] (new_DnsSdBrowse 7)) = []"
    "services (fst (exec [Deliver (RawFound (example_service [])), Fire 1] (new_DnsSdBrowse 7)))
        ''printer|_http._tcp|local.'' = Some (example_service [])"
    by (simp_all add: session_defs)
  from m e C2_found_never_empty[of "example_service [''192.168.1.5'']"
      "[Deliver (RawFound (example_service [''192.168.1.5''])), Fire 1]" "new_DnsSdBrowse 7"]
  show ?thesis by blast
qed

text \<open>
  The claim as written fails for \<^verbatim>\<open>serviceLost\<close>, which line 123 emits with the
  entry as it is: a service found without an address and then lost is delivered with an
  empty \<^verbatim>\<open>addresses\<close> list.
\<close>

theorem C2_lost_empty_counterexample:
  "snd (exec [Deliver (RawFound (example_service [])), Deliver (RawLost (example_service []))] (new_DnsSdBrowse 7))
     = [ServiceLost (example_service [])]
   \<and> addresses (example_service []) = []
   \<and> snd (run_until 1000 [(0, Event (RawFound (example_service []))), (10, Event (RawLost (example_service [])))]
            (new_DnsSdBrowse 7))
     = [(10, ServiceLost (example_service []))]"
  by (simp add: session_defs run_until_def run_timers.simps next_due_def)

section \<open>Releasing the backend handle\<close>

lemma handle_step: "handle (fst (step a st)) = handle st"
  by (cases a)
     (auto simp: browse_callback_def debounce_emit_def setTimeout_def clearTimeout_def Let_def
        fire_def timeout_callback_def stop_unfold split: option.splits raw_event.splits)

lemma calls_step:
  "stopBrowse_calls (fst (step a st)) =
     (if a = Stop \<and> \<not> stopped st then stopBrowse_calls st @ [handle st] else stopBrowse_calls st)"
  by (cases a)
     (auto simp: browse_callback_def debounce_emit_def setTimeout_def clearTimeout_def Let_def
        fire_def timeout_callback_def stop_unfold split: option.splits raw_event.splits)

lemma released_once_step: "released_once st \<Longrightarrow> released_once (fst (step a st))"
  by (auto simp: released_once_def calls_step handle_step stopped_step)

lemma released_once_exec: "released_once st \<Longrightarrow> released_once (fst (exec as st))"
proof (induction as arbitrary: st)
  case Nil
  then show ?case by simp
next
  case (Cons a as)
  from Cons.IH[OF released_once_step[OF Cons.prems, of a]] show ?case by (simp add: split_beta)
qed

lemma handle_exec: "handle (fst (exec as st)) = handle st"
  by (induction as arbitrary: st) (simp_all add: split_beta handle_step)

lemma calls_exec_new:
  "stopBrowse_calls (fst (exec as (new_DnsSdBrowse h))) = (if Stop \<in> set as then [h] else [])"
proof -
  have "released_once (new_DnsSdBrowse h)" by (simp add: released_once_def new_DnsSdBrowse_def)
  from released_once_exec[OF this, of as] show ?thesis
    by (simp add: released_once_def handle_exec stopped_exec) (simp add: new_DnsSdBrowse_def)
qed

lemma adv_calls_exec:
  "stopAdvertise_calls st = (if adv_stopped st then [adv_handle st] else []) \<Longrightarrow>
   stopAdvertise_calls (fst (adv_exec as st))
     = (if adv_stopped st \<or> AdvStop \<in> set as then [adv_handle st] else [])"
proof (induction as arbitrary: st)
  case Nil
  then show ?case by simp
next
  case (Cons a as)
  have 1: "adv_handle (fst (adv_step a st)) = adv_handle st"
    by (cases a) (auto simp: advertise_callback_def adv_stop_def split: adv_event.splits)
  have 2: "adv_stopped (fst (adv_step a st)) = (adv_stopped st \<or> a = AdvStop)"
    by (cases a) (auto simp: advertise_callback_def adv_stop_def split: adv_event.splits)
  have 3: "stopAdvertise_calls (fst (adv_step a st))
        = (if adv_stopped (fst (adv_step a st)) then [adv_handle (fst (adv_step a st))] else [])"
    using Cons.prems
    by (cases a) (auto simp: advertise_callback_def adv_stop_def split: adv_event.splits)
  from Cons.IH[OF 3] 1 2 show ?case by (auto simp: split_beta)
qed

text \<open>
  Claim C8. For both sessions, \<^verbatim>\<open>stop\<close> after \<^verbatim>\<open>stop\<close> changes nothing, a call
  on a stopped session returns the session as it is, and a call on a session that is not
  stopped passes the handle to the backend once. Over any sequence of actions on a new
  session, the backend's stop function has been called exactly once with the session's
  handle if \<^verbatim>\<open>stop\<close> was called at all, and never otherwise. \<^verbatim>\<open>stop\<close> has no
  result but the new state and no failing branch.
\<close>

theorem C8_stop_idempotent:
  "stop (stop st) = stop st
   \<and> (if stopped st then stop st = st
       else stopBrowse_calls (stop st) = stopBrowse_calls st @ [handle st])
   \<and> stopBrowse_calls (fst (exec as (new_DnsSdBrowse h))) = (if Stop \<in> set as then [h] else [])
   \<and> adv_stop (adv_stop a) = adv_stop a
   \<and> (if adv_stopped a then adv_stop a = a
       else stopAdvertise_calls (adv_stop a) = stopAdvertise_calls a @ [adv_handle a])
   \<and> stopAdvertise_calls (fst (adv_exec bs (new_DnsSdAdvertisement h)))
        = (if AdvStop \<in> set bs then [h] else [])"
proof -
  have "stop (stop st) = stop st" by (simp add: stop_stopped stopped_stop)
  moreover have "if stopped st then stop st = st
       else stopBrowse_calls (stop st) = stopBrowse_calls st @ [handle st]"
    by (simp add: stop_unfold)
  moreover note calls_exec_new[of as h]
  moreover have "adv_stop (adv_stop a) = adv_stop a" by (simp add: adv_stop_def)
  moreover have "if adv_stopped a then adv_stop a = a
       else stopAdvertise_calls (adv_stop a) = stopAdvertise_calls a @ [adv_handle a]"
    by (simp add: adv_stop_def)
  moreover have "stopAdvertise_calls (fst (adv_exec bs (new_DnsSdAdvertisement h)))
        = (if AdvStop \<in> set bs then [h] else [])"
    using adv_calls_exec[of "new_DnsSdAdvertisement h" bs] by (simp add: new_DnsSdAdvertisement_def)
  ultimately show ?thesis by blast
qed

text \<open>Three calls of \<^verbatim>\<open>stop\<close>, one release.\<close>

theorem C8_stop_idempotent_witness:
  "stopBrowse_calls (fst (exec [Deliver (RawFound (example_service [''192.168.1.5''])), Stop, Stop,
      Deliver (RawError ''e''), Stop] (new_DnsSdBrowse 7))) = [7]
   \<and> stopAdvertise_calls (fst (adv_exec [AdvStop, AdvDeliver (RawRegistered ''n''), AdvStop]
      (new_DnsSdAdvertisement 7))) = [7]"
  using C8_stop_idempotent[of "new_DnsSdBrowse 7"
      "[Deliver (RawFound (example_service [''192.168.1.5''])), Stop, Stop, Deliver (RawError ''e''), Stop]" 7
      "new_DnsSdAdvertisement 7" "[AdvStop, AdvDeliver (RawRegistered ''n''), AdvStop]"]
  by simp

section \<open>The advertise relay\<close>

lemma adv_exec_stopped: "adv_stopped st \<Longrightarrow> adv_exec as st = (st, [])"
proof (induction as arbitrary: st)
  case Nil
  then show ?case by simp
next
  case (Cons a as)
  have "adv_step a st = (st, [])"
    using Cons.prems by (cases a) (simp_all add: advertise_callback_def adv_stop_def)
  with Cons show ?case by simp
qed

lemma adv_exec_deliver:
  "\<not> adv_stopped st \<Longrightarrow>
   adv_exec (map AdvDeliver evs) st = (st, concat (map (\<lambda>ev. snd (advertise_callback ev st)) evs))"
proof (induction evs)
  case Nil
  then show ?case by simp
next
  case (Cons ev evs)
  have "fst (advertise_callback ev st) = st"
    by (cases ev) (simp_all add: advertise_callback_def)
  with Cons show ?case by (simp add: split_beta)
qed

text \<open>
  Claim C9. While the advertise session is not stopped, a \<^verbatim>\<open>registered\<close> event is
  emitted with the name the backend gave and an \<^verbatim>\<open>error\<close> event with its message,
  the session unchanged; a sequence of raw events yields the notifications of each event
  on its own, in order, so nothing is merged or delayed; after \<^verbatim>\<open>stop\<close>, and on
  any stopped session, nothing is emitted.
\<close>

theorem C9_advertise_relay:
  "(if adv_stopped st
    then snd (adv_exec as st) = []
    else advertise_callback (RawRegistered n) st = (st, [Registered n])
       \<and> advertise_callback (RawAdvError msg) st = (st, [AdvErrorEvent msg])
       \<and> adv_exec (map AdvDeliver evs) st
           = (st, concat (map (\<lambda>ev. snd (advertise_callback ev st)) evs))
       \<and> adv_exec (map (\<lambda>n. AdvDeliver (RawRegistered n)) ns) st = (st, map Registered ns))
   \<and> snd (adv_exec as (adv_stop st)) = []"
proof -
  have a: "snd (adv_exec as (adv_stop st)) = []"
    by (simp add: adv_exec_stopped adv_stop_def)
  show ?thesis
  proof (cases "adv_stopped st")
    case True
    with a show ?thesis by (simp add: adv_exec_stopped)
  next
    case False
    have "adv_exec (map (\<lambda>n. AdvDeliver (RawRegistered n)) ns) st = (st, map Registered ns)"
      using False by (induction ns) (simp_all add: advertise_callback_def)
    with False a adv_exec_deliver[OF False, of evs] show ?thesis
      by (simp add: advertise_callback_def)
  qed
qed

text \<open>Two registrations and an error are forwarded one for one; after \<^verbatim>\<open>stop\<close>, none.\<close>

theorem C9_advertise_relay_witness:
  "adv_exec [AdvDeliver (RawRegistered ''My Cool Service''), AdvDeliver (RawAdvError ''conflict''),
             AdvDeliver (RawRegistered ''My Cool Service (2)'')] (new_DnsSdAdvertisement 3)
     = (new_DnsSdAdvertisement 3,
        [Registered ''My Cool Service'', AdvErrorEvent ''conflict'', Registered ''My Cool Service (2)''])
   \<and> snd (adv_exec [AdvDeliver (RawRegistered ''My Cool Service'')]
        (adv_stop (new_DnsSdAdvertisement 3))) = []"
  using C9_advertise_relay[of "new_DnsSdAdvertisement 3" "[]" "''x''" "''y''"
      "[RawRegistered ''My Cool Service'', RawAdvError ''conflict'', RawRegistered ''My Cool Service (2)'']"
      "[]"]
    C9_advertise_relay[of "new_DnsSdAdvertisement 3" "[AdvDeliver (RawRegistered ''My Cool Service'')]"]
  by (simp add: new_DnsSdAdvertisement_def advertise_callback_def)

section \<open>Merging records\<close>

lemmas spread_defs =
  spread_def set_property_def lists_before_def array_index_def digit_value_def

lemma map_of_add_property:
  "map_of obj k = None \<Longrightarrow> map_of (add_property k v obj) = (map_of obj)(k \<mapsto> v)"
proof (induction obj)
  case Nil
  then show ?case by simp
next
  case (Cons p obj)
  obtain k' v' where p: "p = (k', v')" by (cases p)
  from Cons.prems p have ne: "k' \<noteq> k" and n: "map_of obj k = None"
    by (auto split: if_splits)
  show ?case
  proof (cases "lists_before k k'")
    case True
    then show ?thesis by (auto simp: p fun_eq_iff)
  next
    case False
    with Cons.IH[OF n] ne show ?thesis by (auto simp: p fun_eq_iff)
  qed
qed

lemma map_of_set_property: "map_of (set_property k v obj) = (map_of obj)(k \<mapsto> v)"
  by (simp add: set_property_def map_of_add_property update_conv' split: option.splits)

text \<open>Keys that are array indices come first, by their numbers.\<close>

lemma spread_index_keys_first:
  "spread (Some [(''b'', ''x''), (''10'', ''p'')]) [(''a'', ''y''), (''2'', ''q''), (''b'', ''z'')]
     = [(''2'', ''q''), (''10'', ''p''), (''b'', ''z''), (''a'', ''y'')]"
  by (simp add: spread_defs)

lemma map_of_assign_all:
  "distinct (map fst b) \<Longrightarrow> map_of (assign_all target b) = map_of target ++ map_of b"
proof (induction b arbitrary: target)
  case Nil
  then show ?case by simp
next
  case (Cons kv rest)
  obtain k v where kv: "kv = (k, v)" by (cases kv)
  from Cons.prems kv have k: "k \<notin> dom (map_of rest)" and d: "distinct (map fst rest)"
    by (auto simp: dom_map_of_conv_image_fst)
  from k have "map_of rest k = None" by auto
  then have "(map_of target)(k \<mapsto> v) ++ map_of rest = (map_of target ++ map_of rest)(k \<mapsto> v)"
    by (auto simp: map_add_def fun_eq_iff split: option.splits)
  then have "map_of (assign_all (set_property k v target) rest)
      = (map_of target ++ map_of rest)(k \<mapsto> v)"
    using Cons.IH[OF d, of "set_property k v target"] by (simp only: map_of_set_property)
  moreover have "map_of target ++ map_of (kv # rest) = (map_of target ++ map_of rest)(k \<mapsto> v)"
    unfolding kv by simp
  moreover have "assign_all target (kv # rest) = assign_all (set_property k v target) rest"
    unfolding kv by simp
  ultimately show ?case by (simp only:)
qed

lemma map_of_spread:
  assumes "distinct (map fst (case a of None \<Rightarrow> [] | Some kvs \<Rightarrow> kvs))" "distinct (map fst b)"
  shows "map_of (spread a b) = map_of (case a of None \<Rightarrow> [] | Some kvs \<Rightarrow> kvs) ++ map_of b"
  using assms by (simp add: spread_def map_of_assign_all)

lemma found_present:
  "\<not> stopped st \<Longrightarrow> services st (service_key incoming) = Some service \<Longrightarrow>
   services (fst (browse_callback (RawFound incoming) st)) (service_key incoming)
     = Some (merge_service service incoming)"
  by (simp add: browse_callback_def debounce_emit_def setTimeout_def clearTimeout_def Let_def
      split: option.splits)

text \<open>
  Claim C7. A \<^verbatim>\<open>serviceFound\<close> event for a key the table holds replaces the entry
  by the merge of the entry and the incoming record. The merge takes \<^verbatim>\<open>hostName\<close>
  and \<^verbatim>\<open>port\<close> from the incoming record; it keeps \<^verbatim>\<open>txt\<close> when the incoming
  record has none and otherwise looks every key up in the incoming \<^verbatim>\<open>txt\<close> first
  and in the entry's \<^verbatim>\<open>txt\<close> second (each object holding a key once); it takes
  \<^verbatim>\<open>ttl\<close> from the incoming record only when that is present and not zero.
\<close>

theorem C7_merge_fields:
  "(\<not> stopped st \<and> services st (service_key incoming) = Some service \<longrightarrow>
      services (fst (browse_callback (RawFound incoming) st)) (service_key incoming)
        = Some (merge_service service incoming))
   \<and> hostName (merge_service service incoming) = hostName incoming
   \<and> port (merge_service service incoming) = port incoming
   \<and> (txt incoming = None \<longrightarrow> txt (merge_service service incoming) = txt service)
   \<and> (txt incoming = Some kvs \<and> distinct (map fst kvs)
        \<and> distinct (map fst (case txt service of None \<Rightarrow> [] | Some old \<Rightarrow> old)) \<longrightarrow>
        (\<exists>merged. txt (merge_service service incoming) = Some merged
           \<and> (\<forall>k. map_of merged k =
                  (case map_of kvs k of
                     Some v \<Rightarrow> Some v
                   | None \<Rightarrow> map_of (case txt service of None \<Rightarrow> [] | Some old \<Rightarrow> old) k))))
   \<and> ttl (merge_service service incoming)
       = (if ttl incoming = None \<or> ttl incoming = Some 0 then ttl service else ttl incoming)"
proof -
  have t: "\<exists>merged. txt (merge_service service incoming) = Some merged
           \<and> (\<forall>k. map_of merged k =
                  (case map_of kvs k of
                     Some v \<Rightarrow> Some v
                   | None \<Rightarrow> map_of (case txt service of None \<Rightarrow> [] | Some old \<Rightarrow> old) k))"
    if "txt incoming = Some kvs" "distinct (map fst kvs)"
      "distinct (map fst (case txt service of None \<Rightarrow> [] | Some old \<Rightarrow> old))"
  proof -
    have "txt (merge_service service incoming) = Some (spread (txt service) kvs)"
      using that(1) by (simp add: merge_service_def)
    moreover have "map_of (spread (txt service) kvs) k =
                  (case map_of kvs k of
                     Some v \<Rightarrow> Some v
                   | None \<Rightarrow> map_of (case txt service of None \<Rightarrow> [] | Some old \<Rightarrow> old) k)" for k
      by (simp add: map_of_spread[OF that(3) that(2)] map_add_def)
    ultimately show ?thesis by blast
  qed
  have "ttl (merge_service service incoming)
       = (if ttl incoming = None \<or> ttl incoming = Some 0 then ttl service else ttl incoming)"
    by (auto simp: merge_service_def split: option.splits)
  moreover have "txt incoming = None \<longrightarrow> txt (merge_service service incoming) = txt service"
    by (simp add: merge_service_def)
  moreover have "hostName (merge_service service incoming) = hostName incoming"
    "port (merge_service service incoming) = port incoming"
    by (simp_all add: merge_service_def)
  ultimately show ?thesis using t found_present[of st incoming service] by blast
qed

text \<open>
  The entry has \<^verbatim>\<open>txt = {a: 1}\<close> and \<^verbatim>\<open>ttl = 120\<close>; the incoming record has
  \<^verbatim>\<open>txt = {a: 2, b: 3}\<close> and \<^verbatim>\<open>ttl = 0\<close>.
\<close>

theorem C7_merge_fields_witness:
  "txt (merge_service
         ((example_service [''192.168.1.5''])\<lparr>txt := Some [(''a'', ''1'')], ttl := Some 120\<rparr>)
         ((example_service [''192.168.1.6''])
            \<lparr>hostName := ''q.local.'', port := 8080,
             txt := Some [(''a'', ''2''), (''b'', ''3'')], ttl := Some 0\<rparr>))
     = Some [(''a'', ''2''), (''b'', ''3'')]
   \<and> hostName (merge_service
         ((example_service [''192.168.1.5''])\<lparr>txt := Some [(''a'', ''1'')], ttl := Some 120\<rparr>)
         ((example_service [''192.168.1.6''])
            \<lparr>hostName := ''q.local.'', port := 8080,
             txt := Some [(''a'', ''2''), (''b'', ''3'')], ttl := Some 0\<rparr>)) = ''q.local.''
   \<and> port (merge_service
         ((example_service [''192.168.1.5''])\<lparr>txt := Some [(''a'', ''1'')], ttl := Some 120\<rparr>)
         ((example_service [''192.168.1.6''])
            \<lparr>hostName := ''q.local.'', port := 8080,
             txt := Some [(''a'', ''2''), (''b'', ''3'')], ttl := Some 0\<rparr>)) = 8080
   \<and> ttl (merge_service
         ((example_service [''192.168.1.5''])\<lparr>txt := Some [(''a'', ''1'')], ttl := Some 120\<rparr>)
         ((example_service [''192.168.1.6''])
            \<lparr>hostName := ''q.local.'', port := 8080,
             txt := Some [(''a'', ''2''), (''b'', ''3'')], ttl := Some 0\<rparr>)) = Some 120"
  using C7_merge_fields[of "new_DnsSdBrowse 7"
      "(example_service [''192.168.1.6''])
            \<lparr>hostName := ''q.local.'', port := 8080,
             txt := Some [(''a'', ''2''), (''b'', ''3'')], ttl := Some 0\<rparr>"
      "(example_service [''192.168.1.5''])\<lparr>txt := Some [(''a'', ''1'')], ttl := Some 120\<rparr>"
      "[(''a'', ''2''), (''b'', ''3'')]"]
  by (simp add: example_service_def merge_service_def spread_defs)

section \<open>Timers that are due\<close>

lemma run_timers_idle:
  "next_due t (timers st) = None \<Longrightarrow> run_timers t st = (st\<lparr>clock := max (clock st) t\<rparr>, [])"
  by (subst run_timers.simps) simp

lemma run_timers_due:
  "next_due t (timers st) = Some tm \<Longrightarrow>
   run_timers t st =
     (fst (run_timers t (fst (fire (timer_id tm) (st\<lparr>clock := max (clock st) (deadline tm)\<rparr>)))),
      map (Pair (max (clock st) (deadline tm)))
        (snd (fire (timer_id tm) (st\<lparr>clock := max (clock st) (deadline tm)\<rparr>)))
      @ snd (run_timers t (fst (fire (timer_id tm) (st\<lparr>clock := max (clock st) (deadline tm)\<rparr>)))))"
  by (subst run_timers.simps) (simp add: Let_def split_beta)

section \<open>The addresses of an aggregate\<close>


lemma distinct_set_add: "distinct acc \<Longrightarrow> distinct (set_add acc xs)"
  by (induction xs arbitrary: acc) auto


lemma distinct_array_from_set: "distinct (array_from_set xs)"
  by (simp add: array_from_set_def distinct_set_add)





section \<open>Lost services\<close>

lemma lost_present:
  assumes "\<not> stopped st" "services st (service_key lost) = Some service"
  shows "snd (browse_callback (RawLost lost) st) = [ServiceLost service]"
    and "services (fst (browse_callback (RawLost lost) st)) = (services st)(service_key lost := None)"
    and "map_of (pendingEmit (fst (browse_callback (RawLost lost) st))) (service_key lost) = None"
    and "timers (fst (browse_callback (RawLost lost) st))
           = filter (\<lambda>x. Some (timer_id x) \<noteq> map_of (pendingEmit st) (service_key lost)) (timers st)"
    and "clock (fst (browse_callback (RawLost lost) st)) = clock st"
  using assms
  by (auto simp: browse_callback_def clearTimeout_def Let_def delete_conv' split: option.splits
      intro: filter_cong)

lemma lost_absent:
  "services st (service_key lost) = None \<Longrightarrow> browse_callback (RawLost lost) st = (st, [])"
  by (simp add: browse_callback_def Let_def)

lemma lost_cancels:
  assumes "\<not> stopped st" "services st (service_key lost) = Some service" "tracked st"
  shows "list_all (\<lambda>x. timer_key x \<noteq> service_key lost) (timers (fst (browse_callback (RawLost lost) st)))"
proof -
  have "timer_key x \<noteq> service_key lost"
    if "x \<in> set (timers st)" "Some (timer_id x) \<noteq> map_of (pendingEmit st) (service_key lost)" for x
  proof
    assume "timer_key x = service_key lost"
    moreover from assms(3) that(1) have "map_of (pendingEmit st) (timer_key x) = Some (timer_id x)"
      by (simp add: tracked_def list_all_iff)
    ultimately show False using that(2) by simp
  qed
  then show ?thesis by (simp add: lost_present(4)[OF assms(1,2)] list_all_iff)
qed

section \<open>Bursts among other events\<close>

lemma service_key_create: "service_key (create_service f) = service_key f"
  by (simp add: service_key_def create_service_def)

lemma service_key_merge: "service_key (merge_service s f) = service_key s"
  by (simp add: service_key_def merge_service_def)

lemma distinct_snd_update:
  "distinct (map snd al) \<Longrightarrow> n \<notin> snd ` set al \<Longrightarrow> distinct (map snd (AList.update k n al))"
proof (induction al)
  case Nil
  then show ?case by simp
next
  case (Cons p al)
  have "snd ` set (AList.update k n al) \<subseteq> insert n (snd ` set al)"
    by (induction al) auto
  with Cons show ?case by auto
qed

lemma set_update_snd: "snd ` set (AList.update k n al) \<subseteq> insert n (snd ` set al)"
  by (induction al) auto

lemma distinct_snd_delete:
  "distinct (map snd al) \<Longrightarrow> distinct (map snd (AList.delete k al))"
  by (simp add: AList.delete_eq distinct_map_filter)

lemma set_delete_snd: "snd ` set (AList.delete k al) \<subseteq> snd ` set al"
  by (auto simp: AList.delete_eq)

lemma map_of_inj_snd:
  assumes "distinct (map snd al)" "map_of al k1 = Some i" "map_of al k2 = Some i"
  shows "k1 = k2"
proof -
  from assms(2,3) have m: "(k1, i) \<in> set al" "(k2, i) \<in> set al" by (auto dest: map_of_SomeD)
  from assms(1) have "inj_on snd (set al)" by (simp add: distinct_map)
  from inj_onD[OF this _ m] show ?thesis by simp
qed

lemma well_formed_clock: "well_formed (st\<lparr>clock := c\<rparr>) = well_formed st"
  by (simp add: well_formed_def tracked_def keyed_def)

lemma well_formed_new: "well_formed (new_DnsSdBrowse h)"
  by (simp add: well_formed_def tracked_def keyed_def new_DnsSdBrowse_def)

lemma well_formed_found:
  assumes "well_formed st" "\<not> stopped st"
  shows "well_formed (fst (browse_callback (RawFound f) st))"
proof -
  let ?key = "service_key f"
  let ?svc = "case services st ?key of Some service \<Rightarrow> merge_service service f | None \<Rightarrow> create_service f"
  let ?st' = "fst (browse_callback (RawFound f) st)"
  have e: "?st' = debounce_emit ?key (st\<lparr>services := (services st)(?key \<mapsto> ?svc)\<rparr>)"
    using assms(2) by (simp add: browse_callback_def Let_def)
  have p: "pendingEmit ?st' = AList.update ?key (next_timer st) (pendingEmit st)"
    and n: "next_timer ?st' = Suc (next_timer st)"
    and s: "services ?st' = (services st)(?key \<mapsto> ?svc)"
    unfolding e
    by (auto simp: debounce_emit_def setTimeout_def clearTimeout_def Let_def split: option.splits)
  from assms(1) have fresh: "\<And>i. i \<in> snd ` set (pendingEmit st) \<Longrightarrow> i < next_timer st"
    by (auto simp: well_formed_def list_all_iff)
  then have nin: "next_timer st \<notin> snd ` set (pendingEmit st)" by blast
  have 1: "tracked ?st'"
    unfolding e using assms(1)
    by (intro tracked_debounce_emit) (simp add: well_formed_def tracked_services_update)
  have ksvc: "service_key ?svc = ?key"
  proof (cases "services st ?key")
    case None
    then show ?thesis by (simp add: service_key_create)
  next
    case (Some service)
    with assms(1) have "service_key service = ?key" by (simp add: well_formed_def keyed_def)
    with Some show ?thesis by (simp add: service_key_merge)
  qed
  have 2: "keyed ?st'"
    using assms(1) ksvc by (auto simp: keyed_def s well_formed_def)
  have 3: "distinct (map snd (pendingEmit ?st'))"
    unfolding p using assms(1) nin by (intro distinct_snd_update) (simp_all add: well_formed_def)
  have 4: "list_all (\<lambda>i. i < next_timer ?st') (map snd (pendingEmit ?st'))"
  proof -
    have "i < Suc (next_timer st)" if "i \<in> snd ` set (AList.update ?key (next_timer st) (pendingEmit st))" for i
      using that set_update_snd[of ?key "next_timer st" "pendingEmit st"] fresh by fastforce
    then show ?thesis by (auto simp: p n list_all_iff)
  qed
  from 1 2 3 4 show ?thesis by (simp add: well_formed_def)
qed

lemma well_formed_lost:
  assumes "well_formed st" "\<not> stopped st"
  shows "well_formed (fst (browse_callback (RawLost lost) st))"
proof (cases "services st (service_key lost)")
  case None
  with assms show ?thesis by (simp add: lost_absent)
next
  case (Some service)
  let ?key = "service_key lost"
  let ?st' = "fst (browse_callback (RawLost lost) st)"
  have pe: "pendingEmit ?st' = pendingEmit st \<or> pendingEmit ?st' = AList.delete ?key (pendingEmit st)"
    and n: "next_timer ?st' = next_timer st"
    using assms(2) Some
    by (auto simp: browse_callback_def clearTimeout_def Let_def split: option.splits)
  from pe have p: "set (pendingEmit ?st') \<subseteq> set (pendingEmit st)"
    by (auto simp: AList.delete_eq)
  from pe assms(1) have d: "distinct (map snd (pendingEmit ?st'))"
    by (auto simp: well_formed_def distinct_snd_delete)
  have 1: "tracked ?st'" using assms(1) by (intro tracked_browse_callback) (simp add: well_formed_def)
  have 2: "keyed ?st'"
    using assms(1) by (auto simp: keyed_def well_formed_def lost_present(2)[OF assms(2) Some] split: if_splits)
  have 4: "list_all (\<lambda>i. i < next_timer ?st') (map snd (pendingEmit ?st'))"
    using assms(1) p by (auto simp: well_formed_def list_all_iff n)
  from 1 2 d 4 show ?thesis by (simp add: well_formed_def)
qed

lemma well_formed_browse_callback:
  assumes "well_formed st"
  shows "well_formed (fst (browse_callback ev st))"
proof (cases "stopped st")
  case True
  with assms show ?thesis by (simp add: browse_callback_stopped)
next
  case False
  show ?thesis
  proof (cases ev)
    case (RawFound f)
    with well_formed_found[OF assms False] show ?thesis by simp
  next
    case (RawLost lost)
    with well_formed_lost[OF assms False] show ?thesis by simp
  next
    case (RawError msg)
    with assms False show ?thesis by (simp add: browse_callback_def)
  next
    case (RawOther other)
    with assms False show ?thesis by (simp add: browse_callback_def)
  qed
qed

lemma well_formed_fire:
  assumes "well_formed st"
  shows "well_formed (fst (fire i st))"
proof (cases "find (\<lambda>t. timer_id t = i) (timers st)")
  case None
  with assms show ?thesis by (simp add: fire_def)
next
  case (Some u)
  let ?st' = "fst (fire i st)"
  have p: "pendingEmit ?st' = AList.delete (timer_key u) (pendingEmit st)"
    and n: "next_timer ?st' = next_timer st" and s: "services ?st' = services st"
    by (simp_all add: fire_def Some timeout_callback_def clearTimeout_def Let_def)
  have 1: "tracked ?st'" using assms by (intro tracked_fire) (simp add: well_formed_def)
  have 2: "keyed ?st'" using assms by (simp add: keyed_def s well_formed_def)
  have 3: "distinct (map snd (pendingEmit ?st'))"
    unfolding p using assms by (intro distinct_snd_delete) (simp add: well_formed_def)
  have "j < next_timer st" if "j \<in> snd ` set (AList.delete (timer_key u) (pendingEmit st))" for j
  proof -
    from that set_delete_snd[of "timer_key u" "pendingEmit st"]
    have "j \<in> snd ` set (pendingEmit st)" by blast
    with assms show ?thesis by (auto simp: well_formed_def list_all_iff)
  qed
  then have 4: "list_all (\<lambda>i. i < next_timer ?st') (map snd (pendingEmit ?st'))"
    by (auto simp: list_all_iff n p)
  from 1 2 3 4 show ?thesis by (simp add: well_formed_def)
qed

lemma well_formed_stop:
  assumes "well_formed st"
  shows "well_formed (stop st)"
proof (cases "stopped st")
  case True
  with assms show ?thesis by (simp add: stop_stopped)
next
  case False
  have "tracked (stop st)" using assms by (intro tracked_stop) (simp add: well_formed_def)
  moreover have "keyed (stop st)" using assms by (simp add: well_formed_def keyed_def stop_unfold)
  moreover have "pendingEmit (stop st) = []" using False by (simp add: stop_unfold)
  ultimately show ?thesis by (simp add: well_formed_def)
qed

lemma well_formed_step: "well_formed st \<Longrightarrow> well_formed (fst (step a st))"
  by (cases a) (simp_all add: well_formed_browse_callback well_formed_fire well_formed_stop well_formed_clock)

lemma well_formed_exec: "well_formed st \<Longrightarrow> well_formed (fst (exec as st))"
proof (induction as arbitrary: st)
  case Nil
  then show ?case by simp
next
  case (Cons a as)
  from Cons.IH[OF well_formed_step[OF Cons.prems, of a]] show ?case by (simp add: split_beta)
qed

lemma found_for_append: "found_for k (xs @ ys) = found_for k xs @ found_for k ys"
  by (simp add: found_for_def)

lemma found_for_Nil: "found_for k [] = []"
  by (simp add: found_for_def)


lemma well_formed_timer_id:
  assumes "well_formed st" "x \<in> set (timers st)" "y \<in> set (timers st)" "timer_id x = timer_id y"
  shows "timer_key x = timer_key y"
proof -
  from assms(1,2,3) have "map_of (pendingEmit st) (timer_key x) = Some (timer_id x)"
    "map_of (pendingEmit st) (timer_key y) = Some (timer_id y)"
    by (simp_all add: well_formed_def tracked_def list_all_iff)
  with assms(1,4) show ?thesis by (auto simp: well_formed_def intro: map_of_inj_snd)
qed


lemma find_timer:
  "x \<in> set ts \<Longrightarrow> \<exists>u. find (\<lambda>t. timer_id t = timer_id x) ts = Some u \<and> u \<in> set ts \<and> timer_id u = timer_id x"
  by (cases "find (\<lambda>t. timer_id t = timer_id x) ts") (auto simp: find_None_iff find_Some_iff)

text \<open>A timer of another key runs.\<close>

lemma fire_other:
  assumes "well_formed st" "x \<in> set (timers st)" "timer_key x \<noteq> k"
  shows "timers_of k (fst (fire (timer_id x) st)) = timers_of k st"
    and "services (fst (fire (timer_id x) st)) = services st"
    and "stopped (fst (fire (timer_id x) st)) = stopped st"
    and "clock (fst (fire (timer_id x) st)) = clock st"
    and "found_for k (map (Pair c) (snd (fire (timer_id x) st))) = []"
    and "set (timers (fst (fire (timer_id x) st))) \<subseteq> set (timers st)"
proof -
  from find_timer[OF assms(2)] obtain u
    where u: "find (\<lambda>t. timer_id t = timer_id x) (timers st) = Some u" "u \<in> set (timers st)"
      "timer_id u = timer_id x" by blast
  from well_formed_timer_id[OF assms(1) u(2) assms(2) u(3)] assms(3) have ku: "timer_key u \<noteq> k" by simp
  have t: "timers (fst (fire (timer_id x) st)) = filter (\<lambda>t. timer_id t \<noteq> timer_id x) (timers st)"
    by (simp add: fire_def u(1) timeout_callback_def clearTimeout_def Let_def)
  have keep: "timer_id y \<noteq> timer_id x" if "y \<in> set (timers st)" "timer_key y = k" for y
    using well_formed_timer_id[OF assms(1) that(1) assms(2)] that(2) assms(3) by auto
  show "timers_of k (fst (fire (timer_id x) st)) = timers_of k st"
    unfolding timers_of_def t using keep by (auto intro: filter_cong)
  show "services (fst (fire (timer_id x) st)) = services st"
    by (simp add: fire_def u(1) timeout_callback_def clearTimeout_def Let_def)
  show "stopped (fst (fire (timer_id x) st)) = stopped st" by (rule stopped_fire)
  show "clock (fst (fire (timer_id x) st)) = clock st"
    by (simp add: fire_def u(1) timeout_callback_def clearTimeout_def Let_def)
  show "set (timers (fst (fire (timer_id x) st))) \<subseteq> set (timers st)"
    unfolding t by auto
  have "service_key s \<noteq> k" if "services st (timer_key u) = Some s" for s
    using assms(1) that ku by (auto simp: well_formed_def keyed_def)
  then show "found_for k (map (Pair c) (snd (fire (timer_id x) st))) = []"
    by (auto simp: fire_def u(1) timeout_callback_def clearTimeout_def Let_def found_for_def
        split: option.splits)
qed

lemma earliest_mem: "earliest ts = Some m \<Longrightarrow> m \<in> set ts"
  by (induction ts arbitrary: m) (auto split: option.splits if_splits)

lemma earliest_None: "earliest ts = None \<Longrightarrow> ts = []"
  by (cases ts) (auto split: option.splits if_splits)

lemma earliest_min: "earliest ts = Some m \<Longrightarrow> y \<in> set ts \<Longrightarrow> deadline m \<le> deadline y"
proof (induction ts arbitrary: m y)
  case Nil
  then show ?case by simp
next
  case (Cons a ts)
  show ?case
  proof (cases "earliest ts")
    case None
    then have "ts = []" by (rule earliest_None)
    with Cons.prems show ?thesis by simp
  next
    case (Some m')
    have le: "deadline m' \<le> deadline z" if "z \<in> set ts" for z
      using Cons.IH[OF Some that] .
    from Cons.prems(1) Some have m: "m = (if deadline m' < deadline a then m' else a)"
      by (auto split: if_splits)
    from Cons.prems(2) have "y = a \<or> y \<in> set ts" by simp
    then show ?thesis using le m by (auto simp: not_less intro: order_trans)
  qed
qed

lemma next_due_Some:
  assumes "next_due t ts = Some m"
  shows "m \<in> set ts" "deadline m \<le> t" "\<And>y. y \<in> set ts \<Longrightarrow> deadline y \<le> t \<Longrightarrow> deadline m \<le> deadline y"
proof -
  from earliest_mem[OF assms[unfolded next_due_def]] show "m \<in> set ts" "deadline m \<le> t" by simp_all
  fix y assume "y \<in> set ts" "deadline y \<le> t"
  then have "y \<in> set (filter (\<lambda>x. deadline x \<le> t) ts)" by simp
  from earliest_min[OF assms[unfolded next_due_def] this] show "deadline m \<le> deadline y" .
qed


text \<open>Time passes and no timer of the key is due.\<close>

lemma run_timers_calm:
  assumes "well_formed st" "list_all (\<lambda>x. timer_key x \<noteq> k \<or> t < deadline x) (timers st)"
  shows "well_formed (fst (run_timers t st))
       \<and> timers_of k (fst (run_timers t st)) = timers_of k st
       \<and> services (fst (run_timers t st)) = services st
       \<and> stopped (fst (run_timers t st)) = stopped st
       \<and> clock (fst (run_timers t st)) = max (clock st) t
       \<and> found_for k (snd (run_timers t st)) = []"
  using assms
proof (induction t st rule: run_timers.induct)
  case (1 t st)
  show ?case
  proof (cases "next_due t (timers st)")
    case None
    with "1.prems" show ?thesis
      by (simp add: run_timers_idle well_formed_clock timers_of_def found_for_Nil)
  next
    case (Some tm)
    define now where "now = max (clock st) (deadline tm)"
    define st0 where "st0 = st\<lparr>clock := now\<rparr>"
    define p where "p = fire (timer_id tm) st0"
    note nd = next_due_Some[OF Some]
    from "1.prems"(2) nd(1,2) have kt: "timer_key tm \<noteq> k" by (auto simp: list_all_iff)
    have w0: "well_formed st0" "tm \<in> set (timers st0)" using "1.prems"(1) nd(1) by (simp_all add: st0_def well_formed_clock)
    note fo = fire_other[OF w0 kt, folded p_def]
    have w1: "well_formed (fst p)" unfolding p_def by (rule well_formed_fire[OF w0(1)])
    have l1: "list_all (\<lambda>x. timer_key x \<noteq> k \<or> t < deadline x) (timers (fst p))"
      using "1.prems"(2) fo(6) by (auto simp: list_all_iff st0_def)
    have ih: "well_formed (fst (run_timers t (fst p)))
       \<and> timers_of k (fst (run_timers t (fst p))) = timers_of k (fst p)
       \<and> services (fst (run_timers t (fst p))) = services (fst p)
       \<and> stopped (fst (run_timers t (fst p))) = stopped (fst p)
       \<and> clock (fst (run_timers t (fst p))) = max (clock (fst p)) t
       \<and> found_for k (snd (run_timers t (fst p))) = []"
      using "1.IH"[OF Some now_def, of p "fst p" "snd p"] w1 l1 by (simp add: p_def st0_def)
    have r: "run_timers t st
        = (fst (run_timers t (fst p)), map (Pair now) (snd p) @ snd (run_timers t (fst p)))"
      using run_timers_due[OF Some] by (simp add: now_def p_def st0_def)
    from ih fo nd(2) show ?thesis
      unfolding r
      by (simp add: found_for_append st0_def timers_of_def now_def max_def)
  qed
qed



lemma no_timers_of: "timers_of k st = [] \<Longrightarrow> list_all (\<lambda>x. timer_key x \<noteq> k \<or> t < deadline x) (timers st)"
  by (auto simp: timers_of_def filter_empty_conv list_all_iff)



text \<open>An event of the key.\<close>

lemma callback_found_key:
  assumes "well_formed st" "\<not> stopped st" "service_key f = k"
  shows "timers_of k (fst (browse_callback (RawFound f) st))
       = [\<lparr>timer_id = next_timer st, deadline = clock st + DEBOUNCE_TIMEOUT, timer_key = k\<rparr>]"
    and "services (fst (browse_callback (RawFound f) st)) k = aggregate (services st k) [f]"
    and "clock (fst (browse_callback (RawFound f) st)) = clock st"
proof -
  have gone: "timer_id y = i"
    if "y \<in> set (timers st)" "timer_key y = k" "map_of (pendingEmit st) k = Some i" for y i
  proof -
    from assms(1) that(1) have "map_of (pendingEmit st) (timer_key y) = Some (timer_id y)"
      by (simp add: well_formed_def tracked_def list_all_iff)
    with that(2,3) show ?thesis by simp
  qed
  have none: "timer_key y \<noteq> k" if "y \<in> set (timers st)" "map_of (pendingEmit st) k = None" for y
  proof
    assume "timer_key y = k"
    moreover from assms(1) that(1) have "map_of (pendingEmit st) (timer_key y) = Some (timer_id y)"
      by (simp add: well_formed_def tracked_def list_all_iff)
    ultimately show False using that(2) by simp
  qed
  have 1: "filter (\<lambda>x. timer_key x = k) (filter (\<lambda>t. timer_id t \<noteq> i) (timers st)) = []"
    if "map_of (pendingEmit st) k = Some i" for i
    using gone[OF _ _ that] by (auto simp: filter_empty_conv)
  have 2: "filter (\<lambda>x. timer_key x = k) (timers st) = []" if "map_of (pendingEmit st) k = None"
    using none[OF _ that] by (auto simp: filter_empty_conv)
  show "timers_of k (fst (browse_callback (RawFound f) st))
       = [\<lparr>timer_id = next_timer st, deadline = clock st + DEBOUNCE_TIMEOUT, timer_key = k\<rparr>]"
    using assms(2,3) 1 2
    by (auto simp: browse_callback_def debounce_emit_def setTimeout_def clearTimeout_def Let_def
        timers_of_def split: option.splits)
  show "services (fst (browse_callback (RawFound f) st)) k = aggregate (services st k) [f]"
    using assms(2,3)
    by (auto simp: browse_callback_def debounce_emit_def setTimeout_def clearTimeout_def Let_def
        split: option.splits)
  show "clock (fst (browse_callback (RawFound f) st)) = clock st"
    using assms(2)
    by (auto simp: browse_callback_def debounce_emit_def setTimeout_def clearTimeout_def Let_def
        split: option.splits)
qed








lemma well_formed_run_until: "well_formed st \<Longrightarrow> well_formed (fst (run_until h inputs st))"
proof -
  assume w: "well_formed st"
  obtain as where "exec as st = (fst (run_until h inputs st), map snd (snd (run_until h inputs st)))"
    using run_until_exec by blast
  then have "fst (run_until h inputs st) = fst (exec as st)" by simp
  with well_formed_exec[OF w, of as] show ?thesis by simp
qed




section \<open>Found, then lost\<close>

lemma lost_of_append: "lost_of (xs @ ys) = lost_of xs @ lost_of ys"
  by (simp add: lost_of_def)

lemma lost_of_fire: "lost_of (map (Pair c) (snd (fire i st))) = []"
  by (auto simp: lost_of_def fire_def timeout_callback_def Let_def split: option.splits)

lemma lost_of_run_timers: "lost_of (snd (run_timers t st)) = []"
proof (induction t st rule: run_timers.induct)
  case (1 t st)
  show ?case
  proof (cases "next_due t (timers st)")
    case None
    then show ?thesis by (simp add: run_timers_idle lost_of_def)
  next
    case (Some tm)
    define now where "now = max (clock st) (deadline tm)"
    define p where "p = fire (timer_id tm) (st\<lparr>clock := now\<rparr>)"
    from "1.IH"[OF Some now_def p_def, of "fst p" "snd p"]
    have "lost_of (snd (run_timers t (fst p))) = []" by simp
    moreover have "lost_of (map (Pair now) (snd p)) = []"
      unfolding p_def by (rule lost_of_fire)
    ultimately show ?thesis
      using run_timers_due[OF Some]
      by (simp add: now_def[symmetric] p_def[symmetric] lost_of_append)
  qed
qed

lemma found_then_lost_general:
  assumes "well_formed st" "\<not> stopped st" "list_all (\<lambda>x. timer_key x \<noteq> service_key f) (timers st)"
    "clock st \<le> t0" "t0 \<le> t1" "t1 < t0 + DEBOUNCE_TIMEOUT" "service_key lost = service_key f"
  shows "found_for (service_key f)
           (snd (run_until horizon [(t0, Event (RawFound f)), (t1, Event (RawLost lost))] st)) = []"
    and "lost_of (snd (run_until horizon [(t0, Event (RawFound f)), (t1, Event (RawLost lost))] st))
           = [(t1, ServiceLost (case services st (service_key f) of
                                  Some service \<Rightarrow> merge_service service f
                                | None \<Rightarrow> create_service f))]"
proof -
  let ?k = "service_key f"
  let ?agg = "case services st ?k of Some service \<Rightarrow> merge_service service f | None \<Rightarrow> create_service f"
  from assms(3) have nt: "timers_of ?k st = []"
    by (auto simp: timers_of_def filter_empty_conv list_all_iff)
  define st1 where "st1 = fst (run_timers t0 st)"
  from run_timers_calm[OF assms(1) no_timers_of[OF nt], of t0] assms(2,4)
  have 1: "well_formed st1" "\<not> stopped st1" "services st1 = services st" "clock st1 = t0"
    "found_for ?k (snd (run_timers t0 st)) = []"
    by (simp_all add: st1_def max_def)
  define st2 where "st2 = fst (browse_callback (RawFound f) st1)"
  note cf = callback_found_key[of st1 f, OF 1(1,2) refl, folded st2_def]
  have 2: "well_formed st2" "\<not> stopped st2"
    using well_formed_browse_callback[OF 1(1), of "RawFound f"] 1(2)
    by (simp_all add: st2_def stopped_browse_callback)
  have o2: "snd (browse_callback (RawFound f) st1) = []"
    using 1(2) by (simp add: browse_callback_def Let_def)
  have calm2: "list_all (\<lambda>x. timer_key x \<noteq> ?k \<or> t1 < deadline x) (timers st2)"
  proof -
    have "t1 < deadline x" if "x \<in> set (timers st2)" "timer_key x = ?k" for x
    proof -
      from that have "x \<in> set (timers_of ?k st2)" by (simp add: timers_of_def)
      with cf(1) assms(6) 1(4) show ?thesis by simp
    qed
    then show ?thesis by (auto simp: list_all_iff)
  qed
  define st3 where "st3 = fst (run_timers t1 st2)"
  from run_timers_calm[OF 2(1) calm2] 2(2) cf(2,3) 1(3,4) assms(5)
  have 3: "well_formed st3" "\<not> stopped st3" "services st3 ?k = Some ?agg" "clock st3 = t1"
    "found_for ?k (snd (run_timers t1 st2)) = []"
    by (simp_all add: st3_def max_def)
  have s3: "services st3 (service_key lost) = Some ?agg" using 3(3) assms(7) by simp
  define st4 where "st4 = fst (browse_callback (RawLost lost) st3)"
  have o4: "snd (browse_callback (RawLost lost) st3) = [ServiceLost ?agg]"
    by (rule lost_present(1)[OF 3(2) s3])
  have 4: "well_formed st4" unfolding st4_def by (rule well_formed_browse_callback[OF 3(1)])
  from 3(1) have "tracked st3" by (simp add: well_formed_def)
  from lost_cancels[OF 3(2) s3 this] have "timers_of ?k st4 = []"
    by (auto simp: timers_of_def filter_empty_conv list_all_iff st4_def assms(7))
  from run_timers_calm[OF 4 no_timers_of[OF this], of horizon]
  have 5: "found_for ?k (snd (run_timers horizon st4)) = []" by simp
  have r: "snd (run_until horizon [(t0, Event (RawFound f)), (t1, Event (RawLost lost))] st)
      = snd (run_timers t0 st) @ snd (run_timers t1 st2) @ (t1, ServiceLost ?agg) # snd (run_timers horizon st4)"
    by (simp add: run_until_def split_beta st1_def[symmetric] o2 st2_def[symmetric] st3_def[symmetric]
        o4 st4_def[symmetric] 3(4))
  show "found_for ?k (snd (run_until horizon [(t0, Event (RawFound f)), (t1, Event (RawLost lost))] st)) = []"
    unfolding r using 1(5) 3(5) 5 by (simp add: found_for_append) (simp add: found_for_def)
  show "lost_of (snd (run_until horizon [(t0, Event (RawFound f)), (t1, Event (RawLost lost))] st))
           = [(t1, ServiceLost ?agg)]"
    unfolding r by (simp add: lost_of_append lost_of_run_timers) (simp add: lost_of_def lost_of_run_timers[unfolded lost_of_def])
qed

text \<open>
  Claim C6, as the code has it, by the key of the event. In a session that is not
  stopped, a \<^verbatim>\<open>serviceLost\<close> event whose key the table holds emits exactly one
  \<^verbatim>\<open>serviceLost\<close> with the entry of the key, removes the entry and the key's
  \<^verbatim>\<open>_pendingEmit\<close> entry, and leaves no active timer of the key (every timer being
  tracked); for a key the table does not hold, nothing is emitted and the state is
  unchanged. In a well-formed session with no active timer of the key, a
  \<^verbatim>\<open>serviceFound\<close> event followed, before its timer is due, by a
  \<^verbatim>\<open>serviceLost\<close> event of the same key yields, up to any horizon, no
  \<^verbatim>\<open>serviceFound\<close> of the key and one \<^verbatim>\<open>serviceLost\<close>, with the aggregate.
\<close>

theorem C6_lost:
  "(\<not> stopped st \<and> services st (service_key lost) = Some service \<longrightarrow>
      snd (browse_callback (RawLost lost) st) = [ServiceLost service]
      \<and> services (fst (browse_callback (RawLost lost) st)) = (services st)(service_key lost := None)
      \<and> map_of (pendingEmit (fst (browse_callback (RawLost lost) st))) (service_key lost) = None
      \<and> (tracked st \<longrightarrow>
           list_all (\<lambda>x. timer_key x \<noteq> service_key lost)
             (timers (fst (browse_callback (RawLost lost) st)))))
   \<and> (services st (service_key lost) = None \<longrightarrow> browse_callback (RawLost lost) st = (st, []))
   \<and> (well_formed st \<and> \<not> stopped st
        \<and> list_all (\<lambda>x. timer_key x \<noteq> service_key f) (timers st)
        \<and> clock st \<le> t0 \<and> t0 \<le> t1 \<and> t1 < t0 + DEBOUNCE_TIMEOUT
        \<and> service_key lost = service_key f \<longrightarrow>
        found_for (service_key f)
          (snd (run_until horizon [(t0, Event (RawFound f)), (t1, Event (RawLost lost))] st)) = []
        \<and> lost_of (snd (run_until horizon [(t0, Event (RawFound f)), (t1, Event (RawLost lost))] st))
            = [(t1, ServiceLost (case services st (service_key f) of
                                   Some service \<Rightarrow> merge_service service f
                                 | None \<Rightarrow> create_service f))])"
  using lost_present(1,2,3)[of st lost service] lost_cancels[of st lost service]
    lost_absent[of st lost] found_then_lost_general[of st f t0 t1 lost horizon]
  by blast

text \<open>
  Found at time 0 and lost at time 10: one notification, the loss; and a loss of a service
  the table never held.
\<close>

theorem C6_lost_witness:
  "snd (run_until 1000
          [(0, Event (RawFound (example_service [''192.168.1.5'']))),
           (10, Event (RawLost (example_service [])))] (new_DnsSdBrowse 7))
     = [(10, ServiceLost (example_service [''192.168.1.5'']))]
   \<and> found_for ''printer|_http._tcp|local.''
        (snd (run_until 1000
          [(0, Event (RawFound (example_service [''192.168.1.5'']))),
           (10, Event (RawLost (example_service [])))] (new_DnsSdBrowse 7))) = []
   \<and> browse_callback (RawLost (example_service [])) (new_DnsSdBrowse 7) = (new_DnsSdBrowse 7, [])"
proof -
  have e: "snd (run_until 1000
          [(0, Event (RawFound (example_service [''192.168.1.5'']))),
           (10, Event (RawLost (example_service [])))] (new_DnsSdBrowse 7))
     = [(10, ServiceLost (example_service [''192.168.1.5'']))]"
    by (simp add: session_defs run_until_def run_timers.simps next_due_def)
  have n: "\<not> stopped (new_DnsSdBrowse 7)" "services (new_DnsSdBrowse 7) k = None"
    "timers (new_DnsSdBrowse 7) = []" "clock (new_DnsSdBrowse 7) = 0" for k
    by (simp_all add: new_DnsSdBrowse_def)
  from C6_lost[of "new_DnsSdBrowse 7" "example_service []" "example_service []"
      "example_service [''192.168.1.5'']" 0 10 1000] well_formed_new[of 7] n e
  show ?thesis
    by (simp add: service_key_def example_service_def DEBOUNCE_TIMEOUT_def)
qed

text \<open>
  The claim as written fails for an identity that is not in the table but has the key of
  one that is: the service named \<^verbatim>\<open>a|b\<close> of type \<^verbatim>\<open>c\<close> was found, and the loss
  of the service named \<^verbatim>\<open>a\<close> of type \<^verbatim>\<open>b|c\<close>, which was never found, emits
  \<^verbatim>\<open>serviceLost\<close> with the first service, removes its entry and cancels its timer.
\<close>

theorem C6_lost_other_identity_counterexample:
  "(name pipe_type_service, type pipe_type_service, domain pipe_type_service)
     \<noteq> (name pipe_name_service, type pipe_name_service, domain pipe_name_service)
   \<and> services (fst (exec [Deliver (RawFound pipe_name_service)] (new_DnsSdBrowse 7)))
       (service_key pipe_name_service) = Some pipe_name_service
   \<and> timers (fst (exec [Deliver (RawFound pipe_name_service)] (new_DnsSdBrowse 7))) \<noteq> []
   \<and> snd (exec [Deliver (RawFound pipe_name_service), Deliver (RawLost pipe_type_service)]
         (new_DnsSdBrowse 7)) = [ServiceLost pipe_name_service]
   \<and> services (fst (exec [Deliver (RawFound pipe_name_service), Deliver (RawLost pipe_type_service)]
         (new_DnsSdBrowse 7))) (service_key pipe_name_service) = None
   \<and> timers (fst (exec [Deliver (RawFound pipe_name_service), Deliver (RawLost pipe_type_service)]
         (new_DnsSdBrowse 7))) = []"
  by (simp add: session_defs pipe_name_service_def pipe_type_service_def)

section \<open>Keys\<close>






section \<open>Duplicate addresses\<close>

text \<open>
  Claim C1 fails on the code. The same scoped address found twice leaves the entry, and
  the notification, with the normalized address twice: line 77 removes duplicates before
  line 79 strips the scope suffixes.
\<close>

theorem C1_duplicate_addresses:
  "services (fst (exec [Deliver (RawFound (example_service [''fe80::1%eth0''])),
                        Deliver (RawFound (example_service [''fe80::1%eth0'']))]
                    (new_DnsSdBrowse 7))) ''printer|_http._tcp|local.''
     = Some (example_service [''fe80::1'', ''fe80::1''])
   \<and> snd (run_until 1000
         [(0, Event (RawFound (example_service [''fe80::1%eth0'']))),
          (50, Event (RawFound (example_service [''fe80::1%eth0''])))] (new_DnsSdBrowse 7))
     = [(150, ServiceFound (example_service [''fe80::1'', ''fe80::1'']))]
   \<and> \<not> distinct (addresses (example_service [''fe80::1'', ''fe80::1'']))"
  by (simp add: session_defs run_until_def run_timers.simps next_due_def)

end
